theory Spec2Isabelle
  imports Complex_Main "HOL-Library.Word" "HOL-Library.Monad_Syntax"
begin

section \<open>Constants of vecsum2.c\<close>

definition VECSUM_CHUNK_SIZE :: int where
  "VECSUM_CHUNK_SIZE = 8 * 1024 * 1024"

definition ZCR_READ_CHUNK_SIZE :: int where
  "ZCR_READ_CHUNK_SIZE = 1024 * 1024 * 8"

definition NORMAL_READ_CHUNK_SIZE :: int where
  "NORMAL_READ_CHUNK_SIZE = 8 * 1024 * 1024"

definition DOUBLES_PER_LOOP_ITER :: int where
  "DOUBLES_PER_LOOP_ITER = 16"

definition sizeof_double :: int where
  "sizeof_double = 8"

definition INT_MAX :: int where
  "INT_MAX = 2147483647"

text \<open>The errno values of Linux that the program names.\<close>

definition EINTR :: int where "EINTR = 4"
definition EIO :: int where "EIO = 5"
definition ENOMEM :: int where "ENOMEM = 12"
definition EINVAL :: int where "EINVAL = 22"

section \<open>The options record\<close>

datatype vecsum_type = VECSUM_LIBHDFS | VECSUM_ZCR | VECSUM_LOCAL

record options =
  path :: string
  passes :: int
  ty :: vecsum_type
  rpc_address :: string

section \<open>The reducer\<close>

text \<open>
  A double is modelled by a real number: sums are exact. An \<open>__m128d\<close> is a pair of
  doubles, the low lane first. A buffer is the list of the doubles that may be read
  through the pointer; a load of two doubles outside it has no defined result (None).
\<close>

type_synonym m128d = "real \<times> real"

definition mm_set_pd :: "real \<Rightarrow> real \<Rightarrow> m128d" where
  "mm_set_pd e1 e0 = (e0, e1)"

definition mm_load_pd :: "real list \<Rightarrow> int \<Rightarrow> m128d option" where
  "mm_load_pd buf p =
     (if 0 \<le> p \<and> p + 1 < int (length buf)
      then Some (buf ! nat p, buf ! nat (p + 1)) else None)"

definition mm_add_pd :: "m128d \<Rightarrow> m128d \<Rightarrow> m128d" where
  "mm_add_pd a b = (fst a + fst b, snd a + snd b)"

definition mm_storeh_pd :: "m128d \<Rightarrow> real" where
  "mm_storeh_pd a = snd a"

definition mm_storel_pd :: "m128d \<Rightarrow> real" where
  "mm_storel_pd a = fst a"

record vec_sums =
  sum0 :: m128d
  sum1 :: m128d
  sum2 :: m128d
  sum3 :: m128d
  sum4 :: m128d
  sum5 :: m128d
  sum6 :: m128d
  sum7 :: m128d

text \<open>
  The loop of \<open>vecsum\<close>, from index \<open>i\<close> with the partial sums \<open>s\<close>. The counter is a C
  \<open>int\<close>: an increment beyond \<open>INT_MAX\<close> has no defined result.
\<close>

function vecsum_loop :: "real list \<Rightarrow> int \<Rightarrow> int \<Rightarrow> vec_sums \<Rightarrow> vec_sums option" where
  "vecsum_loop buf num_doubles i s =
     (if i < num_doubles then
        do {
          x0 \<leftarrow> mm_load_pd buf (i + 0);
          x1 \<leftarrow> mm_load_pd buf (i + 2);
          x2 \<leftarrow> mm_load_pd buf (i + 4);
          x3 \<leftarrow> mm_load_pd buf (i + 6);
          x4 \<leftarrow> mm_load_pd buf (i + 8);
          x5 \<leftarrow> mm_load_pd buf (i + 10);
          x6 \<leftarrow> mm_load_pd buf (i + 12);
          x7 \<leftarrow> mm_load_pd buf (i + 14);
          if i + DOUBLES_PER_LOOP_ITER > INT_MAX then None
          else vecsum_loop buf num_doubles (i + DOUBLES_PER_LOOP_ITER)
            \<lparr>sum0 = mm_add_pd (sum0 s) x0, sum1 = mm_add_pd (sum1 s) x1,
             sum2 = mm_add_pd (sum2 s) x2, sum3 = mm_add_pd (sum3 s) x3,
             sum4 = mm_add_pd (sum4 s) x4, sum5 = mm_add_pd (sum5 s) x5,
             sum6 = mm_add_pd (sum6 s) x6, sum7 = mm_add_pd (sum7 s) x7\<rparr>
        }
      else Some s)"
  by pat_completeness auto
termination
  by (relation "measure (\<lambda>(buf, num_doubles, i, s). nat (num_doubles - i))")
     (auto simp: DOUBLES_PER_LOOP_ITER_def)

declare vecsum_loop.simps [simp del]

definition vecsum :: "options \<Rightarrow> real list \<Rightarrow> int \<Rightarrow> real option" where
  "vecsum opts buf num_doubles =
     do {
       s \<leftarrow> vecsum_loop buf num_doubles 0
         \<lparr>sum0 = mm_set_pd 0 0, sum1 = mm_set_pd 0 0, sum2 = mm_set_pd 0 0,
          sum3 = mm_set_pd 0 0, sum4 = mm_set_pd 0 0, sum5 = mm_set_pd 0 0,
          sum6 = mm_set_pd 0 0, sum7 = mm_set_pd 0 0\<rparr>;
       let x0 = mm_add_pd (sum0 s) (sum1 s);
           x1 = mm_add_pd (sum2 s) (sum3 s);
           x2 = mm_add_pd (sum4 s) (sum5 s);
           x3 = mm_add_pd (sum6 s) (sum7 s);
           x4 = mm_add_pd x0 x1;
           x5 = mm_add_pd x2 x3;
           x6 = mm_add_pd x4 x5;
           hi = mm_storeh_pd x6;
           lo = mm_storel_pd x6
       in Some (hi + lo)
     }"

text \<open>The reference reducer (the \<open>SIMPLE_VECSUM\<close> build).\<close>

function simple_vecsum_loop :: "real list \<Rightarrow> int \<Rightarrow> int \<Rightarrow> real \<Rightarrow> real option" where
  "simple_vecsum_loop buf num_doubles i acc =
     (if i < num_doubles then
        (if 0 \<le> i \<and> i < int (length buf)
         then simple_vecsum_loop buf num_doubles (i + 1) (acc + buf ! nat i)
         else None)
      else Some acc)"
  by pat_completeness auto
termination
  by (relation "measure (\<lambda>(buf, num_doubles, i, acc). nat (num_doubles - i))") auto

declare simple_vecsum_loop.simps [simp del]

definition simple_vecsum :: "real list \<Rightarrow> int \<Rightarrow> real option" where
  "simple_vecsum buf num_doubles = simple_vecsum_loop buf num_doubles 0 0"

section \<open>The environment of a run\<close>

text \<open>
  The program reads its parameters from the environment, talks to the HDFS client
  library (libhdfs) and to the operating system, and writes to stdout and stderr. None
  of these is code of the program: a run is a function of a \<open>world\<close>, which fixes what
  every library and system call answers, and returns the exit status with the sequence
  of calls made and messages written.
\<close>

type_synonym byte = "8 word"

text \<open>
  The library and system calls of the program that can fail or that move data, in the
  order of the source. The calls that only release memory (\<open>free\<close>, \<open>hdfsFreeFileInfo\<close>,
  \<open>hdfsFreeBuilder\<close>, \<open>hadoopRzOptionsFree\<close>), the accessors of a zero-copy buffer and
  \<open>hdfsBuilderConfSetStr\<close>, whose result the program does not read, leave no event.
\<close>

datatype call =
    Calloc_stopwatch | Clock_gettime_start | Getrusage | Clock_gettime_stop
  | Calloc_options
  | Calloc_test_data | HdfsNewBuilder | HdfsBuilderConnect | HdfsGetPathInfo | HdfsOpenFile
  | HdfsCloseFile | HdfsDisconnect
  | HadoopReadZero | HadoopRzBufferFree
  | HadoopRzOptionsAlloc | HadoopRzOptionsSetSkipChecksum | HadoopRzOptionsSetByteBufferPool
  | HdfsRead | HdfsSeek | Malloc_buf
  | Sys_open | Sys_fstat | Sys_mmap | Sys_munmap | Sys_close | Sys_stat

text \<open>The messages on stderr, one constructor for each \<open>fprintf(stderr, ...)\<close> or \<open>perror\<close>.\<close>

datatype message =
    Stopwatch_alloc_failed
  | Clock_gettime_failed int
  | Getrusage_failed int
  | Options_calloc_failed
  | VECSUM_PATH_not_set
  | VECSUM_PASSES_not_set
  | VECSUM_PASSES_invalid
  | VECSUM_TYPE_not_set
  | VECSUM_TYPE_invalid
  | Test_data_alloc_failed
  | Builder_failed
  | Connect_failed
  | GetPathInfo_failed int
  | File_has_size_0
  | File_not_aligned int
  | OpenFile_failed int
  | Not_multiple_of_sizeof_double string
  | Not_multiple_of_DOUBLES_PER_LOOP_ITER string
  | ReadZero_failed int
  | ReadZero_partial_read int
  | RzOptionsAlloc_failed
  | RzOptionsSetSkipChecksum_failed int
  | RzOptionsSetByteBufferPool_failed int
  | Zcr_loop_pass_failed int int
  | HdfsRead_failed int
  | HdfsRead_partial_read int
  | Malloc_buffer_failed
  | Normal_loop_pass_failed int int
  | Local_open_failed int
  | Local_fstat_failed int
  | Local_not_aligned int
  | Local_mmap_failed int
  | Length_stat_failed int
  | Vecsum_failed int

text \<open>
  The lines on stdout. A line is recorded as the call of \<open>printf\<close> that writes it, with the
  arguments of the call: the pass and the sum (a double) for the line that ends a pass.
  The characters that the call writes are given by \<open>printed\<close>, below. The two lines that
  \<open>stopwatch_stop\<close> prints carry the elapsed time and the rate; time is not modelled, and
  the two lines are one event that carries the byte count.
\<close>

datatype line =
    Finished_zcr_pass int real
  | Finished_normal_pass int real
  | Finished_local_pass int real
  | Stopwatch_took int

text \<open>The conversion \<open>%d\<close> of \<open>printf\<close>: all the digits of the integer.\<close>

function show_nat :: "nat \<Rightarrow> string" where
  "show_nat n =
     (if n < 10 then [''0123456789'' ! n]
      else show_nat (n div 10) @ [''0123456789'' ! (n mod 10)])"
  by pat_completeness auto
termination
  by (relation "measure (\<lambda>n. n)") auto

declare show_nat.simps [simp del]

definition printf_d :: "int \<Rightarrow> string" where
  "printf_d i = (if i < 0 then CHR ''-'' # show_nat (nat (- i)) else show_nat (nat i))"

text \<open>
  The conversion \<open>%g\<close> of \<open>printf\<close> (C11, 7.21.6.1), with its default precision of six
  significant digits. The decimal exponent of a positive number \<open>x\<close> is the integer \<open>e\<close>
  with \<open>10^e \<le> x < 10^(e+1)\<close>.
\<close>

function exponent_up :: "real \<Rightarrow> int" where
  "exponent_up x = (if 10 \<le> x then exponent_up (x / 10) + 1 else 0)"
  by pat_completeness auto
termination
proof (relation "measure (\<lambda>x. nat \<lfloor>x\<rfloor>)", goal_cases)
  case 1
  show ?case by simp
next
  case (2 x)
  then have "\<lfloor>x / 10\<rfloor> < \<lfloor>x\<rfloor>" by linarith
  moreover have "0 < \<lfloor>x\<rfloor>" using 2 by linarith
  ultimately show ?case by simp
qed

declare exponent_up.simps [simp del]

function exponent_down :: "real \<Rightarrow> int" where
  "exponent_down x = (if 0 < x \<and> x < 1 then exponent_down (x * 10) - 1 else 0)"
  by pat_completeness auto
termination
proof (relation "measure (\<lambda>x. nat \<lfloor>1 / x\<rfloor>)", goal_cases)
  case 1
  show ?case by simp
next
  case (2 x)
  then have x: "0 < x" "x < 1" by auto
  define y where "y = 1 / x"
  have y: "1 < y" using x by (simp add: y_def)
  have e: "1 / (x * 10) = y / 10" by (simp add: y_def)
  have "\<lfloor>y / 10\<rfloor> < \<lfloor>y\<rfloor>"
  proof (cases "y < 10")
    case True
    then have "\<lfloor>y / 10\<rfloor> = 0" using y by (simp add: floor_eq_iff)
    moreover have "1 \<le> \<lfloor>y\<rfloor>" using y by linarith
    ultimately show ?thesis by simp
  next
    case False
    then show ?thesis by linarith
  qed
  moreover have "0 < \<lfloor>y\<rfloor>" using y by linarith
  ultimately show ?case by (simp add: e y_def [symmetric])
qed

declare exponent_down.simps [simp del]

definition exponent10 :: "real \<Rightarrow> int" where
  "exponent10 x = (if x < 1 then exponent_down x else exponent_up x)"

text \<open>
  The value is rounded to six significant digits, to the nearest and to the even digit
  when it lies half way (the rounding of the C library in the default rounding mode):
  \<open>g_round x\<close> is the integer of the six digits with the exponent \<open>X\<close> of the rounded
  value.
\<close>

definition round_half_even :: "real \<Rightarrow> int" where
  "round_half_even x =
     (let f = \<lfloor>x\<rfloor>; r = x - of_int f in
      if r < 1 / 2 then f else if 1 / 2 < r then f + 1 else if even f then f else f + 1)"

definition scale10 :: "real \<Rightarrow> int \<Rightarrow> real" where
  "scale10 x k = (if 0 \<le> k then x * 10 ^ nat k else x / 10 ^ nat (- k))"

definition g_round :: "real \<Rightarrow> int \<times> int" where
  "g_round a =
     (let e = exponent10 a; m = round_half_even (scale10 a (5 - e)) in
      if m = 1000000 then (100000, e + 1) else (m, e))"

text \<open>
  The digits are written in the style of \<open>%f\<close> when \<open>-4 \<le> X < 6\<close> and in the style of
  \<open>%e\<close> otherwise, the exponent with two digits at least; the zeros that end the fraction
  are removed, and so is the point when no fraction is left.
\<close>

definition strip_zeros :: "string \<Rightarrow> string" where
  "strip_zeros s = rev (dropWhile (\<lambda>c. c = CHR ''0'') (rev s))"

definition fraction :: "string \<Rightarrow> string" where
  "fraction s = (if strip_zeros s = [] then [] else CHR ''.'' # strip_zeros s)"

definition style_e :: "string \<Rightarrow> int \<Rightarrow> string" where
  "style_e ds X =
     hd ds # fraction (tl ds) @ [CHR ''e'', if X < 0 then CHR ''-'' else CHR ''+''] @
     (if \<bar>X\<bar> < 10 then ''0'' else []) @ show_nat (nat \<bar>X\<bar>)"

definition style_f :: "string \<Rightarrow> int \<Rightarrow> string" where
  "style_f ds X =
     (if 0 \<le> X then take (nat (X + 1)) ds @ fraction (drop (nat (X + 1)) ds)
      else ''0'' @ fraction (replicate (nat (- X - 1)) CHR ''0'' @ ds))"

definition printf_g :: "real \<Rightarrow> string" where
  "printf_g x =
     (if x = 0 then ''0''
      else
        (case g_round \<bar>x\<bar> of
           (m, X) \<Rightarrow>
             (if x < 0 then ''-'' else []) @
             (if - 4 \<le> X \<and> X < 6 then style_f (show_nat (nat m)) X
              else style_e (show_nat (nat m)) X)))"

text \<open>
  The characters of a line: the formats of \<open>vecsum_zcr_loop\<close>, \<open>vecsum_normal_loop\<close> and
  \<open>vecsum_local\<close>. The text of the lines of the stopwatch depends on the elapsed time:
  it is not determined here (\<open>None\<close>); their byte count is written with \<open>%lld\<close>, all its
  digits.
\<close>

fun printed :: "line \<Rightarrow> string option" where
  "printed (Finished_zcr_pass pass v) =
     Some (''finished zcr pass '' @ printf_d pass @ ''.  sum = '' @ printf_g v @ [CHR 0x0A])"
| "printed (Finished_normal_pass pass v) =
     Some (''finished normal pass '' @ printf_d pass @ ''.  sum = '' @ printf_g v @ [CHR 0x0A])"
| "printed (Finished_local_pass pass v) =
     Some (''finished vecsum_local pass '' @ printf_d pass @ ''.  sum = '' @ printf_g v @ [CHR 0x0A])"
| "printed (Stopwatch_took n) = None"

text \<open>
  What a run does, in order: the calls, the name node given to the HDFS builder, the
  invocations of the reducer (with their \<open>num_doubles\<close>), and the messages.
\<close>

datatype event =
    Call call
  | SetNameNode string
  | Vecsum int
  | Stderr message
  | Stdout line

text \<open>
  What one call of \<open>hdfsRead\<close> or \<open>hadoopReadZero\<close> does: it fails with an errno
  (\<open>EINTR\<close> when interrupted), or it transfers at most so many bytes.
\<close>

datatype transfer = Fail int | Deliver nat

record world =
  getenv :: "string \<Rightarrow> string option"
  fault :: "call \<Rightarrow> int option"
  file_bytes :: "byte list"
  as_double :: "byte list \<Rightarrow> real"
  read_script :: "transfer list"
  seek_script :: "bool list"
  heap0 :: "int \<Rightarrow> byte"

text \<open>
  \<^item> \<open>getenv\<close>: the environment variables.
  \<^item> \<open>fault c\<close>: \<open>Some e\<close> when the call \<open>c\<close> fails, with errno \<open>e\<close> (for the calls that
    are made once; reads and seeks follow the scripts below).
  \<^item> \<open>file_bytes\<close>: the content of the file at \<open>VECSUM_PATH\<close>; its size is the length.
  \<^item> \<open>as_double\<close>: the double that eight bytes of memory are read as.
  \<^item> \<open>read_script\<close>: what the successive calls of \<open>hdfsRead\<close> and \<open>hadoopReadZero\<close> do;
    once the script is used up, every call transfers all it was asked for, up to the
    end of the file.
  \<^item> \<open>seek_script\<close>: whether the successive calls of \<open>hdfsSeek\<close> fail; once used up,
    every seek succeeds.
  \<^item> \<open>heap0\<close>: the memory around the buffer of \<open>vecsum_libhdfs\<close> when it is allocated,
    addressed by the offset from the start of the buffer.
\<close>

record state =
  pos :: nat
  script :: "transfer list"
  seeks :: "bool list"
  errno :: int
  heap :: "int \<Rightarrow> byte"
  out :: "event list"

definition init :: "world \<Rightarrow> state" where
  "init w = \<lparr>pos = 0, script = read_script w, seeks = seek_script w, errno = 0,
     heap = heap0 w, out = []\<rparr>"

definition emit :: "event \<Rightarrow> state \<Rightarrow> state" where
  "emit e s = s\<lparr>out := out s @ [e]\<rparr>"

text \<open>A call that the world lets fail or succeed: the call is recorded, errno set on failure.\<close>

definition attempt :: "world \<Rightarrow> call \<Rightarrow> state \<Rightarrow> int option \<times> state" where
  "attempt w c s =
     (case fault w c of
        None \<Rightarrow> (None, emit (Call c) s)
      | Some e \<Rightarrow> (Some e, (emit (Call c) s)\<lparr>errno := e\<rparr>))"

section \<open>The stopwatch\<close>

definition stopwatch_create :: "world \<Rightarrow> state \<Rightarrow> bool \<times> state" where
  "stopwatch_create w s =
     (case attempt w Calloc_stopwatch s of
        (Some e, s1) \<Rightarrow> (False, emit (Stderr Stopwatch_alloc_failed) s1)
      | (None, s1) \<Rightarrow>
     (case attempt w Clock_gettime_start s1 of
        (Some e, s2) \<Rightarrow> (False, emit (Stderr (Clock_gettime_failed e)) s2)
      | (None, s2) \<Rightarrow>
     (case attempt w Getrusage s2 of
        (Some e, s3) \<Rightarrow> (False, emit (Stderr (Getrusage_failed e)) s3)
      | (None, s3) \<Rightarrow> (True, s3))))"

definition stopwatch_stop :: "world \<Rightarrow> int \<Rightarrow> state \<Rightarrow> state" where
  "stopwatch_stop w bytes_read s =
     (case attempt w Clock_gettime_stop s of
        (Some e, s1) \<Rightarrow> emit (Stderr (Clock_gettime_failed e)) s1
      | (None, s1) \<Rightarrow> emit (Stdout (Stopwatch_took bytes_read)) s1)"

section \<open>Options\<close>

text \<open>
  \<open>strcasecmp\<close> and \<open>atoi\<close> are the C library's: two strings compare equal when they
  agree after mapping A-Z to a-z; \<open>atoi s\<close> is \<open>(int) strtol(s, NULL, 10)\<close>, which skips
  white space, reads an optional sign and the decimal digits that follow, clamps to
  the range of \<open>long\<close> and is then truncated to 32 bits.
\<close>

definition tolower_c :: "char \<Rightarrow> char" where
  "tolower_c c =
     (if 65 \<le> (of_char c :: nat) \<and> (of_char c :: nat) \<le> 90
      then char_of (of_char c + 32 :: nat) else c)"

definition strcasecmp :: "string \<Rightarrow> string \<Rightarrow> int" where
  "strcasecmp a b = (if map tolower_c a = map tolower_c b then 0 else 1)"

definition isspace_c :: "char \<Rightarrow> bool" where
  "isspace_c c = ((of_char c :: nat) = 32 \<or> (9 \<le> (of_char c :: nat) \<and> (of_char c :: nat) \<le> 13))"

definition isdigit_c :: "char \<Rightarrow> bool" where
  "isdigit_c c = (48 \<le> (of_char c :: nat) \<and> (of_char c :: nat) \<le> 57)"

fun digits :: "int \<Rightarrow> string \<Rightarrow> int" where
  "digits acc [] = acc"
| "digits acc (c # cs) =
     (if isdigit_c c then digits (acc * 10 + (of_char c - 48)) cs else acc)"

definition strtol10 :: "string \<Rightarrow> int" where
  "strtol10 str =
     (let s = dropWhile isspace_c str;
          v = (case s of
                 [] \<Rightarrow> 0
               | c # cs \<Rightarrow>
                   if c = CHR ''-'' then - digits 0 cs
                   else if c = CHR ''+'' then digits 0 cs
                   else digits 0 s)
      in max (- (2 ^ 63)) (min (2 ^ 63 - 1) v))"

definition atoi :: "string \<Rightarrow> int" where
  "atoi str = sint (word_of_int (strtol10 str) :: 32 word)"

definition parse_vecsum_type :: "string \<Rightarrow> int" where
  "parse_vecsum_type str =
     (if strcasecmp str ''libhdfs'' = 0 then 0
      else if strcasecmp str ''zcr'' = 0 then 1
      else if strcasecmp str ''local'' = 0 then 2
      else -1)"

text \<open>The enumeration value of an \<open>int\<close> (\<open>opts->ty = ty\<close>).\<close>

definition vecsum_type_of :: "int \<Rightarrow> vecsum_type" where
  "vecsum_type_of n = (if n = 0 then VECSUM_LIBHDFS else if n = 1 then VECSUM_ZCR else VECSUM_LOCAL)"

definition options_create :: "world \<Rightarrow> state \<Rightarrow> options option \<times> state" where
  "options_create w s =
     (case attempt w Calloc_options s of
        (Some e, s1) \<Rightarrow> (None, emit (Stderr Options_calloc_failed) s1)
      | (None, s1) \<Rightarrow>
     (case getenv w ''VECSUM_PATH'' of
        None \<Rightarrow> (None, emit (Stderr VECSUM_PATH_not_set) s1)
      | Some path_str \<Rightarrow>
     (case getenv w ''VECSUM_PASSES'' of
        None \<Rightarrow> (None, emit (Stderr VECSUM_PASSES_not_set) s1)
      | Some pass_str \<Rightarrow>
          if atoi pass_str \<le> 0 then (None, emit (Stderr VECSUM_PASSES_invalid) s1)
          else
     (case getenv w ''VECSUM_TYPE'' of
        None \<Rightarrow> (None, emit (Stderr VECSUM_TYPE_not_set) s1)
      | Some ty_str \<Rightarrow>
          if parse_vecsum_type ty_str < 0 then (None, emit (Stderr VECSUM_TYPE_invalid) s1)
          else
            (Some \<lparr>path = path_str, passes = atoi pass_str,
               ty = vecsum_type_of (parse_vecsum_type ty_str),
               rpc_address =
                 (case getenv w ''VECSUM_RPC_ADDRESS'' of
                    None \<Rightarrow> ''default'' | Some a \<Rightarrow> a)\<rparr>, s1)))))"

section \<open>The HDFS session\<close>

text \<open>
  \<open>test_data\<close>: whether the file system is connected (\<open>fs\<close>) and the file open
  (\<open>hfile\<close>), and the length of the file. The read position of the file and the buffer
  are in the state. Calls that only release memory (\<open>free\<close>, \<open>hdfsFreeFileInfo\<close>,
  \<open>hdfsFreeBuilder\<close>, \<open>hadoopRzOptionsFree\<close>) are not recorded.
\<close>

record test_data =
  fs :: bool
  hfile :: bool
  tlength :: int

definition test_data_free :: "test_data \<Rightarrow> state \<Rightarrow> state" where
  "test_data_free tdata s =
     (if fs tdata then
        emit (Call HdfsDisconnect) (if hfile tdata then emit (Call HdfsCloseFile) s else s)
      else s)"

definition test_data_create :: "world \<Rightarrow> options \<Rightarrow> state \<Rightarrow> test_data option \<times> state" where
  "test_data_create w opts s =
     (case attempt w Calloc_test_data s of
        (Some e, s1) \<Rightarrow> (None, emit (Stderr Test_data_alloc_failed) s1)
      | (None, s1) \<Rightarrow>
     (case attempt w HdfsNewBuilder s1 of
        (Some e, s2) \<Rightarrow>
          (None, test_data_free \<lparr>fs = False, hfile = False, tlength = 0\<rparr>
             (emit (Stderr Builder_failed) s2))
      | (None, s2) \<Rightarrow>
     (case attempt w HdfsBuilderConnect (emit (SetNameNode (rpc_address opts)) s2) of
        (Some e, s3) \<Rightarrow>
          (None, test_data_free \<lparr>fs = False, hfile = False, tlength = 0\<rparr>
             (emit (Stderr Connect_failed) s3))
      | (None, s3) \<Rightarrow>
     (case attempt w HdfsGetPathInfo s3 of
        (Some e, s4) \<Rightarrow>
          (None, test_data_free \<lparr>fs = True, hfile = False, tlength = 0\<rparr>
             (emit (Stderr (GetPathInfo_failed e)) s4))
      | (None, s4) \<Rightarrow>
          let len = int (length (file_bytes w)) in
          if len = 0 then
            (None, test_data_free \<lparr>fs = True, hfile = False, tlength = len\<rparr>
               (emit (Stderr File_has_size_0) s4))
          else if len mod VECSUM_CHUNK_SIZE \<noteq> 0 then
            (None, test_data_free \<lparr>fs = True, hfile = False, tlength = len\<rparr>
               (emit (Stderr (File_not_aligned len)) s4))
          else
     (case attempt w HdfsOpenFile s4 of
        (Some e, s5) \<Rightarrow>
          (None, test_data_free \<lparr>fs = True, hfile = False, tlength = len\<rparr>
             (emit (Stderr (OpenFile_failed e)) s5))
      | (None, s5) \<Rightarrow> (Some \<lparr>fs = True, hfile = True, tlength = len\<rparr>, s5))))))"

definition check_byte_size :: "int \<Rightarrow> string \<Rightarrow> state \<Rightarrow> int \<times> state" where
  "check_byte_size byte_size str s =
     (if byte_size mod sizeof_double \<noteq> 0
      then (EINVAL, emit (Stderr (Not_multiple_of_sizeof_double str)) s)
      else if (byte_size div sizeof_double) mod DOUBLES_PER_LOOP_ITER \<noteq> 0
      then (EINVAL, emit (Stderr (Not_multiple_of_DOUBLES_PER_LOOP_ITER str)) s)
      else (0, s))"

text \<open>The doubles that a sequence of bytes holds, eight bytes each.\<close>

fun doubles_of :: "(byte list \<Rightarrow> real) \<Rightarrow> byte list \<Rightarrow> real list" where
  "doubles_of dec (b0 # b1 # b2 # b3 # b4 # b5 # b6 # b7 # bs) =
     dec [b0, b1, b2, b3, b4, b5, b6, b7] # doubles_of dec bs"
| "doubles_of dec bs = []"

text \<open>
  The bytes that a read at the position of the file transfers when asked for \<open>len\<close>
  bytes and the transport gives at most \<open>k\<close>.
\<close>

definition transferred :: "world \<Rightarrow> state \<Rightarrow> int \<Rightarrow> nat \<Rightarrow> byte list" where
  "transferred w s len k = take (min k (nat len)) (drop (pos s) (file_bytes w))"

text \<open>
  What is left to transfer: the events of the script and the bytes of the file after
  the position. Every read that returns something other than 0 makes it smaller.
\<close>

definition remaining :: "world \<Rightarrow> state \<Rightarrow> nat" where
  "remaining w s = length (script s) + (length (file_bytes w) - pos s)"

section \<open>The zero-copy strategy\<close>

record hadoopRzBuffer =
  ptr :: "byte list option"
  rz_length :: int

text \<open>
  \<open>hadoopReadZero\<close> of libhdfs: \<open>None\<close> (a null pointer, errno set) on failure; at the end
  of the file a buffer whose data is null; otherwise a buffer with the bytes read, at
  most \<open>maxLength\<close>.
\<close>

definition zero_copy :: "world \<Rightarrow> state \<Rightarrow> byte list \<Rightarrow> hadoopRzBuffer option \<times> state" where
  "zero_copy w s bs =
     (if length (file_bytes w) \<le> pos s then (Some \<lparr>ptr = None, rz_length = 0\<rparr>, s)
      else (Some \<lparr>ptr = Some bs, rz_length = int (length bs)\<rparr>, s\<lparr>pos := pos s + length bs\<rparr>))"

definition hadoopReadZero :: "world \<Rightarrow> state \<Rightarrow> int \<Rightarrow> hadoopRzBuffer option \<times> state" where
  "hadoopReadZero w s maxLength =
     (let s0 = emit (Call HadoopReadZero) s in
      case script s0 of
        [] \<Rightarrow> zero_copy w s0 (transferred w s maxLength (nat maxLength))
      | Fail e # r \<Rightarrow> (None, s0\<lparr>script := r, errno := e\<rparr>)
      | Deliver k # r \<Rightarrow> zero_copy w (s0\<lparr>script := r\<rparr>) (transferred w s maxLength k))"

lemma hadoopReadZero_remaining:
  assumes "hadoopReadZero w s maxLength = (Some rzbuf, s1)" "ptr rzbuf = Some buf" "0 < rz_length rzbuf"
  shows "remaining w s1 < remaining w s"
  using assms
  by (auto simp: hadoopReadZero_def zero_copy_def remaining_def emit_def transferred_def Let_def
      split: list.splits transfer.splits if_splits)

text \<open>The loop of \<open>vecsum_zcr_loop\<close>, with the sum so far. \<open>None\<close>: no defined result.\<close>

function zcr_while :: "world \<Rightarrow> int \<Rightarrow> options \<Rightarrow> real \<Rightarrow> state \<Rightarrow> (int \<times> state) option" where
  "zcr_while w pass opts psum s =
     (case hadoopReadZero w s ZCR_READ_CHUNK_SIZE of
        (None, s1) \<Rightarrow> Some (errno s1, emit (Stderr (ReadZero_failed (errno s1))) s1)
      | (Some rzbuf, s1) \<Rightarrow>
          (case ptr rzbuf of
             None \<Rightarrow>
               Some (0, emit (Call HadoopRzBufferFree)
                          (emit (Stdout (Finished_zcr_pass pass psum)) s1))
           | Some buf \<Rightarrow>
               if rz_length rzbuf < ZCR_READ_CHUNK_SIZE then
                 Some (EINVAL, emit (Call HadoopRzBufferFree)
                                 (emit (Stderr (ReadZero_partial_read (rz_length rzbuf))) s1))
               else
                 (case vecsum opts (doubles_of (as_double w) buf)
                         (ZCR_READ_CHUNK_SIZE div sizeof_double) of
                    None \<Rightarrow> None
                  | Some v \<Rightarrow>
                      zcr_while w pass opts (psum + v)
                        (emit (Call HadoopRzBufferFree)
                           (emit (Vecsum (ZCR_READ_CHUNK_SIZE div sizeof_double)) s1)))))"
  by pat_completeness auto
termination
proof (relation "measure (\<lambda>(w, pass, opts, psum, s). remaining w s)", goal_cases)
  case 1
  show ?case by simp
next
  case (2 w pass opts psum s x1 s1 rzbuf buf v)
  then have "remaining w s1 < remaining w s"
    by (intro hadoopReadZero_remaining [of w s ZCR_READ_CHUNK_SIZE rzbuf s1 buf])
       (auto simp: ZCR_READ_CHUNK_SIZE_def)
  then show ?case by (simp add: remaining_def emit_def)
qed

declare zcr_while.simps [simp del]

definition vecsum_zcr_loop :: "world \<Rightarrow> int \<Rightarrow> test_data \<Rightarrow> options \<Rightarrow> state \<Rightarrow> (int \<times> state) option" where
  "vecsum_zcr_loop w pass tdata opts s = zcr_while w pass opts 0 s"

text \<open>
  \<open>hdfsSeek\<close> of libhdfs: 0 and the position moved, or -1 and the position unchanged.
\<close>

definition hdfsSeek :: "state \<Rightarrow> nat \<Rightarrow> int \<times> state" where
  "hdfsSeek s desiredPos =
     (let s0 = emit (Call HdfsSeek) s in
      case seeks s0 of
        [] \<Rightarrow> (0, s0\<lparr>pos := desiredPos\<rparr>)
      | failing # r \<Rightarrow>
          if failing then (-1, s0\<lparr>seeks := r\<rparr>)
          else (0, s0\<lparr>seeks := r, pos := desiredPos\<rparr>))"

text \<open>The \<open>for\<close> loop of \<open>vecsum_zcr\<close>, from pass \<open>pass\<close>.\<close>

function zcr_passes :: "world \<Rightarrow> test_data \<Rightarrow> options \<Rightarrow> int \<Rightarrow> state \<Rightarrow> (int \<times> state) option" where
  "zcr_passes w tdata opts pass s =
     (if pass < passes opts then
        (case vecsum_zcr_loop w pass tdata opts s of
           None \<Rightarrow> None
         | Some (ret, s1) \<Rightarrow>
             if ret \<noteq> 0 then Some (ret, emit (Stderr (Zcr_loop_pass_failed pass ret)) s1)
             else zcr_passes w tdata opts (pass + 1) (snd (hdfsSeek s1 0)))
      else Some (0, s))"
  by pat_completeness auto
termination
  by (relation "measure (\<lambda>(w, tdata, opts, pass, s). nat (passes opts - pass))") auto

declare zcr_passes.simps [simp del]

definition vecsum_zcr :: "world \<Rightarrow> test_data \<Rightarrow> options \<Rightarrow> state \<Rightarrow> (int \<times> state) option" where
  "vecsum_zcr w tdata opts s =
     (case attempt w HadoopRzOptionsAlloc s of
        (Some e, s1) \<Rightarrow> Some (ENOMEM, emit (Stderr RzOptionsAlloc_failed) s1)
      | (None, s1) \<Rightarrow>
     (case attempt w HadoopRzOptionsSetSkipChecksum s1 of
        (Some e, s2) \<Rightarrow> Some (errno s2, emit (Stderr (RzOptionsSetSkipChecksum_failed e)) s2)
      | (None, s2) \<Rightarrow>
     (case attempt w HadoopRzOptionsSetByteBufferPool s2 of
        (Some e, s3) \<Rightarrow> Some (errno s3, emit (Stderr (RzOptionsSetByteBufferPool_failed e)) s3)
      | (None, s3) \<Rightarrow> zcr_passes w tdata opts 0 s3)))"

section \<open>The streaming strategy\<close>

text \<open>Memory after the bytes \<open>bs\<close> are written from address \<open>a\<close> on.\<close>

definition store :: "(int \<Rightarrow> byte) \<Rightarrow> int \<Rightarrow> byte list \<Rightarrow> (int \<Rightarrow> byte)" where
  "store m a bs = (\<lambda>x. if a \<le> x \<and> x < a + int (length bs) then bs ! nat (x - a) else m x)"

definition put :: "state \<Rightarrow> int \<Rightarrow> byte list \<Rightarrow> int \<times> state" where
  "put s buf bs = (int (length bs), s\<lparr>pos := pos s + length bs, heap := store (heap s) buf bs\<rparr>)"

text \<open>
  \<open>hdfsRead\<close> of libhdfs, asked for \<open>len\<close> bytes to be written at \<open>buf\<close>: the number of
  bytes read, 0 at the end of the file, or -1 with errno set (\<open>EINTR\<close> when no data was
  available yet).
\<close>

definition hdfsRead :: "world \<Rightarrow> state \<Rightarrow> int \<Rightarrow> int \<Rightarrow> int \<times> state" where
  "hdfsRead w s buf len =
     (let s0 = emit (Call HdfsRead) s in
      case script s0 of
        [] \<Rightarrow> put s0 buf (transferred w s len (nat len))
      | Fail e # r \<Rightarrow> (-1, s0\<lparr>script := r, errno := e\<rparr>)
      | Deliver k # r \<Rightarrow> put (s0\<lparr>script := r\<rparr>) buf (transferred w s len k))"

lemma hdfsRead_remaining:
  assumes "hdfsRead w s buf len = (ret, s1)"
  shows "remaining w s1 \<le> remaining w s" and "ret \<noteq> 0 \<Longrightarrow> remaining w s1 < remaining w s"
  using assms
  by (auto simp: hdfsRead_def put_def remaining_def emit_def transferred_def Let_def min_def
      split: list.splits transfer.splits if_splits)

text \<open>
  The loop of \<open>hdfsReadFully\<close>. The counters are \<open>tSize\<close> (32 bits); they are integers
  here, which is the same as long as fewer than \<open>2^31 - len\<close> reads are interrupted.
\<close>

function hdfsReadFully_loop :: "world \<Rightarrow> state \<Rightarrow> int \<Rightarrow> int \<Rightarrow> int \<Rightarrow> int \<times> state" where
  "hdfsReadFully_loop w s buf len nread =
     (if len > 0 then
        (case hdfsRead w s buf len of
           (ret, s1) \<Rightarrow>
             if ret < 0 \<and> errno s1 \<noteq> EINTR then (-1, s1)
             else if ret = 0 then (nread, s1)
             else hdfsReadFully_loop w s1 (buf + ret) (len - ret) (nread + ret))
      else (nread, s))"
  by pat_completeness auto
termination
proof (relation "measure (\<lambda>(w, s, buf, len, nread). remaining w s)", goal_cases)
  case 1
  show ?case by simp
next
  case (2 w s buf len nread ret s1)
  then show ?case using hdfsRead_remaining(2) [of w s buf len ret s1] by simp
qed

declare hdfsReadFully_loop.simps [simp del]

definition hdfsReadFully :: "world \<Rightarrow> state \<Rightarrow> int \<Rightarrow> int \<Rightarrow> int \<times> state" where
  "hdfsReadFully w s buffer len = hdfsReadFully_loop w s buffer len 0"

lemma hdfsReadFully_loop_remaining:
  "hdfsReadFully_loop w s buf len nread = (res, s') \<Longrightarrow>
     remaining w s' \<le> remaining w s \<and> (nread < res \<longrightarrow> remaining w s' < remaining w s)"
proof (induction w s buf len nread rule: hdfsReadFully_loop.induct)
  case (1 w s buf len nread)
  show ?case
  proof (cases "len > 0")
    case False
    with "1.prems" show ?thesis by (simp add: hdfsReadFully_loop.simps)
  next
    case True
    obtain ret s1 where r: "hdfsRead w s buf len = (ret, s1)" by force
    note m = hdfsRead_remaining [OF r]
    consider "ret < 0 \<and> errno s1 \<noteq> EINTR" | "\<not> (ret < 0 \<and> errno s1 \<noteq> EINTR)" "ret = 0"
      | "\<not> (ret < 0 \<and> errno s1 \<noteq> EINTR)" "ret \<noteq> 0" by blast
    then show ?thesis
    proof cases
      case 1
      with "1.prems" True r m show ?thesis by (simp add: hdfsReadFully_loop.simps [of w s])
    next
      case 2
      with "1.prems" True r m show ?thesis by (simp add: hdfsReadFully_loop.simps [of w s])
    next
      case 3
      with "1.prems" True r
      have "hdfsReadFully_loop w s1 (buf + ret) (len - ret) (nread + ret) = (res, s')"
        by (simp add: hdfsReadFully_loop.simps [of w s])
      from "1.IH" [OF True r [symmetric] 3 this]
      have "remaining w s' \<le> remaining w s1" by auto
      with m(2) [OF 3(2)] show ?thesis by simp
    qed
  qed
qed

text \<open>The bytes of the buffer of \<open>vecsum_libhdfs\<close>.\<close>

definition buffer :: "state \<Rightarrow> byte list" where
  "buffer s = map (\<lambda>k. heap s (int k)) [0 ..< nat NORMAL_READ_CHUNK_SIZE]"

text \<open>The loop of \<open>vecsum_normal_loop\<close>, with the sum so far.\<close>

function normal_while :: "world \<Rightarrow> int \<Rightarrow> options \<Rightarrow> real \<Rightarrow> state \<Rightarrow> (int \<times> state) option" where
  "normal_while w pass opts psum s =
     (case hdfsReadFully w s 0 NORMAL_READ_CHUNK_SIZE of
        (res, s1) \<Rightarrow>
          if res = 0 then Some (0, emit (Stdout (Finished_normal_pass pass psum)) s1)
          else if res < 0 then Some (errno s1, emit (Stderr (HdfsRead_failed (errno s1))) s1)
          else if res < NORMAL_READ_CHUNK_SIZE
          then Some (EINVAL, emit (Stderr (HdfsRead_partial_read res)) s1)
          else
            (case vecsum opts (doubles_of (as_double w) (buffer s1))
                    (NORMAL_READ_CHUNK_SIZE div sizeof_double) of
               None \<Rightarrow> None
             | Some v \<Rightarrow>
                 normal_while w pass opts (psum + v)
                   (emit (Vecsum (NORMAL_READ_CHUNK_SIZE div sizeof_double)) s1)))"
  by pat_completeness auto
termination
proof (relation "measure (\<lambda>(w, pass, opts, psum, s). remaining w s)", goal_cases)
  case 1
  show ?case by simp
next
  case (2 w pass opts psum s res s1 v)
  then have "remaining w s1 < remaining w s"
    using hdfsReadFully_loop_remaining [of w s 0 NORMAL_READ_CHUNK_SIZE 0 res s1]
    by (simp add: hdfsReadFully_def)
  then show ?case by (simp add: remaining_def emit_def)
qed

declare normal_while.simps [simp del]

definition vecsum_normal_loop :: "world \<Rightarrow> int \<Rightarrow> test_data \<Rightarrow> options \<Rightarrow> state \<Rightarrow> (int \<times> state) option" where
  "vecsum_normal_loop w pass tdata opts s = normal_while w pass opts 0 s"

text \<open>The \<open>for\<close> loop of \<open>vecsum_libhdfs\<close>, from pass \<open>pass\<close>.\<close>

function normal_passes :: "world \<Rightarrow> test_data \<Rightarrow> options \<Rightarrow> int \<Rightarrow> state \<Rightarrow> (int \<times> state) option" where
  "normal_passes w tdata opts pass s =
     (if pass < passes opts then
        (case vecsum_normal_loop w pass tdata opts s of
           None \<Rightarrow> None
         | Some (ret, s1) \<Rightarrow>
             if ret \<noteq> 0 then Some (ret, emit (Stderr (Normal_loop_pass_failed pass ret)) s1)
             else normal_passes w tdata opts (pass + 1) (snd (hdfsSeek s1 0)))
      else Some (0, s))"
  by pat_completeness auto
termination
  by (relation "measure (\<lambda>(w, tdata, opts, pass, s). nat (passes opts - pass))") auto

declare normal_passes.simps [simp del]

definition vecsum_libhdfs :: "world \<Rightarrow> test_data \<Rightarrow> options \<Rightarrow> state \<Rightarrow> (int \<times> state) option" where
  "vecsum_libhdfs w tdata opts s =
     (case attempt w Malloc_buf s of
        (Some e, s1) \<Rightarrow> Some (ENOMEM, emit (Stderr Malloc_buffer_failed) s1)
      | (None, s1) \<Rightarrow> normal_passes w tdata opts 0 s1)"

section \<open>The memory-mapped strategy\<close>

text \<open>
  \<open>mmap\<close>: a mapping of zero bytes fails with \<open>EINVAL\<close> (POSIX); any other succeeds or
  fails as the world says.
\<close>

definition mmap :: "world \<Rightarrow> int \<Rightarrow> state \<Rightarrow> int option \<times> state" where
  "mmap w len s =
     (if len = 0 then (Some EINVAL, (emit (Call Sys_mmap) s)\<lparr>errno := EINVAL\<rparr>)
      else attempt w Sys_mmap s)"

text \<open>The conversion of a \<open>size_t\<close> to \<open>int\<close> (the argument \<open>num_doubles\<close>).\<close>

definition int_of_size_t :: "int \<Rightarrow> int" where
  "int_of_size_t n = sint (word_of_int n :: 32 word)"

text \<open>The \<open>for\<close> loop of \<open>vecsum_local\<close>, from pass \<open>pass\<close>; the mapping holds the file.\<close>

function local_passes :: "world \<Rightarrow> options \<Rightarrow> int \<Rightarrow> int \<Rightarrow> state \<Rightarrow> state option" where
  "local_passes w opts len pass s =
     (if pass < passes opts then
        (case vecsum opts (doubles_of (as_double w) (file_bytes w))
                (int_of_size_t (len div sizeof_double)) of
           None \<Rightarrow> None
         | Some v \<Rightarrow>
             local_passes w opts len (pass + 1)
               (emit (Stdout (Finished_local_pass pass v))
                  (emit (Vecsum (int_of_size_t (len div sizeof_double))) s)))
      else Some s)"
  by pat_completeness auto
termination
  by (relation "measure (\<lambda>(w, opts, len, pass, s). nat (passes opts - pass))") auto

declare local_passes.simps [simp del]

definition vecsum_local :: "world \<Rightarrow> options \<Rightarrow> state \<Rightarrow> (int \<times> state) option" where
  "vecsum_local w opts s =
     (case attempt w Sys_open s of
        (Some err, s1) \<Rightarrow> Some (EIO, emit (Stderr (Local_open_failed err)) s1)
      | (None, s1) \<Rightarrow>
     (case attempt w Sys_fstat s1 of
        (Some err, s2) \<Rightarrow>
          Some (EIO, emit (Call Sys_close) (emit (Stderr (Local_fstat_failed err)) s2))
      | (None, s2) \<Rightarrow>
          let len = int (length (file_bytes w)) in
          if len mod VECSUM_CHUNK_SIZE \<noteq> 0 then
            Some (EINVAL, emit (Call Sys_close) (emit (Stderr (Local_not_aligned len)) s2))
          else
     (case mmap w len s2 of
        (Some err, s3) \<Rightarrow>
          Some (EIO, emit (Call Sys_close) (emit (Stderr (Local_mmap_failed err)) s3))
      | (None, s3) \<Rightarrow>
          (case local_passes w opts len 0 s3 of
             None \<Rightarrow> None
           | Some s4 \<Rightarrow> Some (0, emit (Call Sys_close) (emit (Call Sys_munmap) s4))))))"

section \<open>The driver\<close>

text \<open>\<open>None\<close>: the pointer \<open>tdata\<close> is null where the source reads through it.\<close>

definition vecsum_length :: "world \<Rightarrow> options \<Rightarrow> test_data option \<Rightarrow> state \<Rightarrow> (int \<times> state) option" where
  "vecsum_length w opts tdata s =
     (if ty opts = VECSUM_LOCAL then
        (case attempt w Sys_stat s of
           (Some err, s1) \<Rightarrow> Some (- EIO, emit (Stderr (Length_stat_failed err)) s1)
         | (None, s1) \<Rightarrow> Some (int (length (file_bytes w)), s1))
      else (case tdata of None \<Rightarrow> None | Some td \<Rightarrow> Some (tlength td, s)))"

text \<open>The code of \<open>main\<close> from the label \<open>done\<close> on; \<open>watch\<close> tells whether the stopwatch exists.\<close>

definition main_done ::
  "world \<Rightarrow> options option \<Rightarrow> test_data option \<Rightarrow> bool \<Rightarrow> int \<Rightarrow> state \<Rightarrow> (int \<times> state) option" where
  "main_done w opts tdata watch ret s =
     (case (if watch \<and> ret = 0 then
              (case opts of
                 None \<Rightarrow> None
               | Some op \<Rightarrow>
                   (case vecsum_length w op tdata s of
                      None \<Rightarrow> None
                    | Some (len, s1) \<Rightarrow>
                        if len \<ge> 0 then Some (stopwatch_stop w (len * passes op) s1)
                        else Some s1))
            else Some s) of
        None \<Rightarrow> None
      | Some s2 \<Rightarrow>
          Some (ret, case tdata of None \<Rightarrow> s2 | Some td \<Rightarrow> test_data_free td s2))"

text \<open>The code of \<open>main\<close> from the creation of the stopwatch to the label \<open>done\<close>.\<close>

definition main_run :: "world \<Rightarrow> options \<Rightarrow> test_data option \<Rightarrow> state \<Rightarrow> (int \<times> state) option" where
  "main_run w opts tdata s =
     (case stopwatch_create w s of
        (False, s1) \<Rightarrow> main_done w (Some opts) tdata False 1 s1
      | (True, s1) \<Rightarrow>
          (case (case ty opts of
                   VECSUM_LIBHDFS \<Rightarrow>
                     (case tdata of None \<Rightarrow> None | Some td \<Rightarrow> vecsum_libhdfs w td opts s1)
                 | VECSUM_ZCR \<Rightarrow>
                     (case tdata of None \<Rightarrow> None | Some td \<Rightarrow> vecsum_zcr w td opts s1)
                 | VECSUM_LOCAL \<Rightarrow> vecsum_local w opts s1) of
             None \<Rightarrow> None
           | Some (ret, s2) \<Rightarrow>
               if ret \<noteq> 0
               then main_done w (Some opts) tdata True ret (emit (Stderr (Vecsum_failed ret)) s2)
               else main_done w (Some opts) tdata True 0 s2))"

text \<open>
  \<open>main\<close>: the value returned and the final state, or \<open>None\<close> when the run has no
  defined result.
\<close>

definition main :: "world \<Rightarrow> (int \<times> state) option" where
  "main w =
     (case check_byte_size VECSUM_CHUNK_SIZE ''VECSUM_CHUNK_SIZE'' (init w) of
        (r1, s1) \<Rightarrow>
          if r1 \<noteq> 0 then main_done w None None False 1 s1
          else
     (case check_byte_size ZCR_READ_CHUNK_SIZE ''ZCR_READ_CHUNK_SIZE'' s1 of
        (r2, s2) \<Rightarrow>
          if r2 \<noteq> 0 then main_done w None None False 1 s2
          else
     (case check_byte_size NORMAL_READ_CHUNK_SIZE ''NORMAL_READ_CHUNK_SIZE'' s2 of
        (r3, s3) \<Rightarrow>
          if r3 \<noteq> 0 then main_done w None None False 1 s3
          else
     (case options_create w s3 of
        (None, s4) \<Rightarrow> main_done w None None False 1 s4
      | (Some opts, s4) \<Rightarrow>
          if ty opts \<noteq> VECSUM_LOCAL then
            (case test_data_create w opts s4 of
               (None, s5) \<Rightarrow> main_done w (Some opts) None False 1 s5
             | (Some tdata, s5) \<Rightarrow> main_run w opts (Some tdata) s5)
          else main_run w opts None s4))))"

section \<open>ByteBufferRecordReader: the read statistics\<close>

text \<open>
  The counters of the job and the statistics of the stream are Java \<open>long\<close>s: 64-bit
  words, whose addition and subtraction wrap around.
\<close>

datatype READ_COUNTER = BYTES_READ | LOCAL_BYTES_READ | SCR_BYTES_READ | ZCR_BYTES_READ

record ReadStatistics =
  totalBytesRead :: "64 word"
  totalLocalBytesRead :: "64 word"
  totalShortCircuitBytesRead :: "64 word"
  totalZeroCopyBytesRead :: "64 word"

text \<open>The reader: the counters of its task context, and its field \<open>readStats\<close>.\<close>

record reader =
  counter :: "READ_COUNTER \<Rightarrow> 64 word"
  readStats :: ReadStatistics

definition increment :: "READ_COUNTER \<Rightarrow> 64 word \<Rightarrow> reader \<Rightarrow> reader" where
  "increment c incr r = r\<lparr>counter := (counter r)(c := counter r c + incr)\<rparr>"

definition updateStats :: "ReadStatistics \<Rightarrow> reader \<Rightarrow> reader" where
  "updateStats newStats r =
     (let r1 = increment BYTES_READ
                 (totalBytesRead newStats - totalBytesRead (readStats r)) r;
          r2 = increment LOCAL_BYTES_READ
                 (totalLocalBytesRead newStats - totalLocalBytesRead (readStats r1)) r1;
          r3 = increment SCR_BYTES_READ
                 (totalShortCircuitBytesRead newStats - totalShortCircuitBytesRead (readStats r2)) r2;
          r4 = increment ZCR_BYTES_READ
                 (totalZeroCopyBytesRead newStats - totalZeroCopyBytesRead (readStats r3)) r3
      in r4\<lparr>readStats := newStats\<rparr>)"

text \<open>The statistic that feeds a counter.\<close>

fun stat_of :: "READ_COUNTER \<Rightarrow> ReadStatistics \<Rightarrow> 64 word" where
  "stat_of BYTES_READ st = totalBytesRead st"
| "stat_of LOCAL_BYTES_READ st = totalLocalBytesRead st"
| "stat_of SCR_BYTES_READ st = totalShortCircuitBytesRead st"
| "stat_of ZCR_BYTES_READ st = totalZeroCopyBytesRead st"

section \<open>Auxiliary definitions\<close>

text \<open>The sum of the sixteen lanes of the eight partial accumulators.\<close>
definition lanes :: "vec_sums \<Rightarrow> real" where
  "lanes s = fst (sum0 s) + snd (sum0 s) + fst (sum1 s) + snd (sum1 s)
     + fst (sum2 s) + snd (sum2 s) + fst (sum3 s) + snd (sum3 s)
     + fst (sum4 s) + snd (sum4 s) + fst (sum5 s) + snd (sum5 s)
     + fst (sum6 s) + snd (sum6 s) + fst (sum7 s) + snd (sum7 s)"

text \<open>
  Concrete worlds and options for instances of the theorems: a world in which no call
  fails, whose bytes all read as the double 1.
\<close>

definition calm_world :: "(string \<Rightarrow> string option) \<Rightarrow> byte list \<Rightarrow> transfer list \<Rightarrow> bool list \<Rightarrow> world" where
  "calm_world env bs sc sk =
     \<lparr>getenv = env, fault = (\<lambda>c. None), file_bytes = bs, as_double = (\<lambda>b. 1),
      read_script = sc, seek_script = sk, heap0 = (\<lambda>a. 0)\<rparr>"

definition some_opts :: "vecsum_type \<Rightarrow> options" where
  "some_opts t = \<lparr>path = ''/f'', passes = 1, ty = t, rpc_address = ''default''\<rparr>"

text \<open>
  The iterations of the loop of \<open>vecsum_zcr_loop\<close>: \<open>zcr_reaches w opts c d\<close> when the loop
  started with the sum and state \<open>c\<close> comes to the head of the loop with the sum and state
  \<open>d\<close>, each chunk in between having been a full one that was reduced.
\<close>

inductive zcr_reaches :: "world \<Rightarrow> options \<Rightarrow> real \<times> state \<Rightarrow> real \<times> state \<Rightarrow> bool"
  for w :: world and opts :: options and c :: "real \<times> state" where
  start: "zcr_reaches w opts c c"
| next_chunk: "zcr_reaches w opts c (psum, s) \<Longrightarrow>
     hadoopReadZero w s ZCR_READ_CHUNK_SIZE = (Some rzbuf, s1) \<Longrightarrow>
     ptr rzbuf = Some buf \<Longrightarrow>
     \<not> rz_length rzbuf < ZCR_READ_CHUNK_SIZE \<Longrightarrow>
     vecsum opts (doubles_of (as_double w) buf) (ZCR_READ_CHUNK_SIZE div sizeof_double) = Some v \<Longrightarrow>
     zcr_reaches w opts c
       (psum + v, emit (Call HadoopRzBufferFree)
                    (emit (Vecsum (ZCR_READ_CHUNK_SIZE div sizeof_double)) s1))"

text \<open>The environment of a run on the file \<open>/f\<close>, with the given passes and type.\<close>

definition env_of :: "string \<Rightarrow> string \<Rightarrow> string \<Rightarrow> string option" where
  "env_of passes_str type_str =
     [''VECSUM_PATH'' \<mapsto> ''/f'', ''VECSUM_PASSES'' \<mapsto> passes_str, ''VECSUM_TYPE'' \<mapsto> type_str]"

text \<open>
  The value of the eight bytes of a double in memory (IEEE 754 binary64, the least
  significant byte first, as on x86-64); an infinity or a NaN has no value among the
  reals, the formula is extended to them.
\<close>

definition little_endian :: "byte list \<Rightarrow> nat" where
  "little_endian bs = foldr (\<lambda>b a. unat b + 256 * a) bs 0"

definition binary64 :: "byte list \<Rightarrow> real" where
  "binary64 bs =
     (let n = little_endian bs; s = n div 2 ^ 63; e = (n div 2 ^ 52) mod 2048; m = n mod 2 ^ 52 in
      (if s = 1 then - 1 else 1) *
      (if e = 0 then real m / 2 ^ 1074
       else if e < 1075 then real (2 ^ 52 + m) / 2 ^ (1075 - e)
       else real (2 ^ 52 + m) * 2 ^ (e - 1075)))"

text \<open>
  The bytes of the double 1.0, and the world of a run of the streaming strategy with one
  pass on a file of 2097152 such doubles, in which no call fails.
\<close>

definition one_bytes :: "byte list" where
  "one_bytes = [0, 0, 0, 0, 0, 0, 0xF0, 0x3F]"

definition ones_world :: "transfer list \<Rightarrow> world" where
  "ones_world sc =
     \<lparr>getenv = env_of ''1'' ''libhdfs'', fault = (\<lambda>c. None),
      file_bytes = concat (replicate 2097152 one_bytes), as_double = binary64,
      read_script = sc, seek_script = [], heap0 = (\<lambda>a. 0)\<rparr>"

text \<open>
  A script of reads that are short at worst: no call fails, every call transfers at
  least one byte when one is left.
\<close>

definition benign :: "transfer list \<Rightarrow> bool" where
  "benign sc = list_all (\<lambda>t. case t of Fail e \<Rightarrow> False | Deliver k \<Rightarrow> 0 < k) sc"

text \<open>The lines written to stdout, in order.\<close>

fun stdout_of :: "event list \<Rightarrow> line list" where
  "stdout_of [] = []"
| "stdout_of (Stdout l # es) = l # stdout_of es"
| "stdout_of (e # es) = stdout_of es"

text \<open>The number of bytes that a request for \<open>len\<close> bytes can get at the position.\<close>

definition avail :: "world \<Rightarrow> state \<Rightarrow> int \<Rightarrow> nat" where
  "avail w s len = min (nat len) (length (file_bytes w) - pos s)"

text \<open>\<open>emits P s s'\<close>: the state \<open>s'\<close> has the events of \<open>s\<close> and then events that satisfy \<open>P\<close>.\<close>

definition emits :: "(event \<Rightarrow> bool) \<Rightarrow> state \<Rightarrow> state \<Rightarrow> bool" where
  "emits P s s' = (\<exists>es. out s' = out s @ es \<and> list_all P es)"

text \<open>The events of the HDFS client: the calls of libhdfs, and the name node given to it.\<close>

fun remote :: "event \<Rightarrow> bool" where
  "remote (Call c) =
     (c \<in> {HdfsNewBuilder, HdfsBuilderConnect, HdfsGetPathInfo, HdfsOpenFile,
            HdfsCloseFile, HdfsDisconnect, HadoopReadZero, HadoopRzBufferFree,
            HadoopRzOptionsAlloc, HadoopRzOptionsSetSkipChecksum,
            HadoopRzOptionsSetByteBufferPool, HdfsRead, HdfsSeek})"
| "remote (SetNameNode a) = True"
| "remote e = False"

text \<open>
  The order of events in a trace. \<open>precedes P Q tr\<close>: no event that satisfies \<open>Q\<close> is
  followed by one that satisfies \<open>P\<close> (all of \<open>P\<close> is over when \<open>Q\<close> happens).
  \<open>guarded_by Q P tr\<close>: no event satisfies \<open>P\<close> until one has satisfied \<open>Q\<close>.
\<close>

fun precedes :: "(event \<Rightarrow> bool) \<Rightarrow> (event \<Rightarrow> bool) \<Rightarrow> event list \<Rightarrow> bool" where
  "precedes P Q [] = True"
| "precedes P Q (e # es) =
     (if Q e then list_all (\<lambda>x. \<not> P x) es \<and> precedes P Q es else precedes P Q es)"

fun guarded_by :: "(event \<Rightarrow> bool) \<Rightarrow> (event \<Rightarrow> bool) \<Rightarrow> event list \<Rightarrow> bool" where
  "guarded_by Q P [] = True"
| "guarded_by Q P (e # es) = (if Q e then True else \<not> P e \<and> guarded_by Q P es)"

text \<open>
  The setup of the HDFS strategies and of every run (the options, the connection, the
  size and alignment of the file, its opening); the setup of the local strategy (the
  file opened, its size, the mapping); the reading and reducing of data; the instants
  the stopwatch takes.
\<close>

fun session_setup :: "event \<Rightarrow> bool" where
  "session_setup (Call c) =
     (c \<in> {Calloc_options, Calloc_test_data, HdfsNewBuilder, HdfsBuilderConnect,
            HdfsGetPathInfo, HdfsOpenFile})"
| "session_setup (SetNameNode a) = True"
| "session_setup e = False"

fun mapping_setup :: "event \<Rightarrow> bool" where
  "mapping_setup (Call c) = (c \<in> {Sys_open, Sys_fstat, Sys_mmap})"
| "mapping_setup e = False"

fun is_data :: "event \<Rightarrow> bool" where
  "is_data (Call c) = (c \<in> {HdfsRead, HadoopReadZero})"
| "is_data (Vecsum n) = True"
| "is_data e = False"

definition started :: "event \<Rightarrow> bool" where
  "started e = (e = Call Clock_gettime_start)"

definition stopped :: "event \<Rightarrow> bool" where
  "stopped e = (e = Call Clock_gettime_stop)"

text \<open>
  The stopwatch excludes all setup: every setup event, of the session or of the mapping,
  is over when the stopwatch starts; no data is read or reduced before it starts, nor
  after it stops.
\<close>

definition stopwatch_excludes_setup :: "event list \<Rightarrow> bool" where
  "stopwatch_excludes_setup tr =
     (precedes (\<lambda>e. session_setup e \<or> mapping_setup e) started tr \<and>
      guarded_by started is_data tr \<and> precedes is_data stopped tr)"

text \<open>
  The same, but for the setup of the mapping, which happens only once the stopwatch
  has started.
\<close>

definition stopwatch_brackets_passes :: "event list \<Rightarrow> bool" where
  "stopwatch_brackets_passes tr =
     (precedes session_setup started tr \<and> guarded_by started mapping_setup tr \<and>
      guarded_by started is_data tr \<and> precedes is_data stopped tr)"

text \<open>The events of the four parts of a run of \<open>main\<close>.\<close>

fun before_watch :: "event \<Rightarrow> bool" where
  "before_watch (Call c) =
     (c \<in> {Calloc_options, Calloc_test_data, HdfsNewBuilder, HdfsBuilderConnect,
            HdfsGetPathInfo, HdfsOpenFile, HdfsDisconnect})"
| "before_watch (SetNameNode a) = True"
| "before_watch (Stderr m) = True"
| "before_watch e = False"

fun watch_failing :: "event \<Rightarrow> bool" where
  "watch_failing (Call c) = (c \<in> {Calloc_stopwatch, Clock_gettime_start, Getrusage})"
| "watch_failing (Stderr m) = True"
| "watch_failing e = False"

fun in_run :: "event \<Rightarrow> bool" where
  "in_run (Call c) =
     (c \<in> {Malloc_buf, HdfsRead, HdfsSeek, HadoopReadZero, HadoopRzBufferFree,
            HadoopRzOptionsAlloc, HadoopRzOptionsSetSkipChecksum,
            HadoopRzOptionsSetByteBufferPool,
            Sys_open, Sys_fstat, Sys_mmap, Sys_munmap, Sys_close})"
| "in_run (SetNameNode a) = False"
| "in_run e = True"

fun at_done :: "event \<Rightarrow> bool" where
  "at_done (Call c) = (c \<in> {Sys_stat, Clock_gettime_stop, HdfsCloseFile, HdfsDisconnect})"
| "at_done (Stdout l) = True"
| "at_done (Stderr m) = True"
| "at_done e = False"

section \<open>The reducer computes the sum of its buffer\<close>

lemma sum_list_drop_16:
  assumes "i + 16 \<le> length (buf :: real list)"
  shows "sum_list (drop i buf) =
     buf ! i + buf ! (i + 1) + buf ! (i + 2) + buf ! (i + 3) + buf ! (i + 4) + buf ! (i + 5)
     + buf ! (i + 6) + buf ! (i + 7) + buf ! (i + 8) + buf ! (i + 9) + buf ! (i + 10)
     + buf ! (i + 11) + buf ! (i + 12) + buf ! (i + 13) + buf ! (i + 14) + buf ! (i + 15)
     + sum_list (drop (i + 16) buf)"
proof -
  have step: "\<And>k. k < length buf \<Longrightarrow> sum_list (drop k buf) = buf ! k + sum_list (drop (Suc k) buf)"
    by (simp flip: Cons_nth_drop_Suc)
  show ?thesis using assms
    by (simp add: step eval_nat_numeral)
qed

lemma mm_load_pd_in_range:
  assumes "k + 1 < length buf"
  shows "mm_load_pd buf (int k) = Some (buf ! k, buf ! (k + 1))"
  using assms by (simp add: mm_load_pd_def nat_add_distrib)

lemma vecsum_loop_step:
  assumes "i + 16 \<le> length buf" "int i < n" "int i + 16 \<le> INT_MAX"
  shows "vecsum_loop buf n (int i) s =
     vecsum_loop buf n (int (i + 16))
       \<lparr>sum0 = mm_add_pd (sum0 s) (buf ! i, buf ! (i + 1)),
        sum1 = mm_add_pd (sum1 s) (buf ! (i + 2), buf ! (i + 3)),
        sum2 = mm_add_pd (sum2 s) (buf ! (i + 4), buf ! (i + 5)),
        sum3 = mm_add_pd (sum3 s) (buf ! (i + 6), buf ! (i + 7)),
        sum4 = mm_add_pd (sum4 s) (buf ! (i + 8), buf ! (i + 9)),
        sum5 = mm_add_pd (sum5 s) (buf ! (i + 10), buf ! (i + 11)),
        sum6 = mm_add_pd (sum6 s) (buf ! (i + 12), buf ! (i + 13)),
        sum7 = mm_add_pd (sum7 s) (buf ! (i + 14), buf ! (i + 15))\<rparr>"
proof -
  have l: "\<And>d. d + 1 < 16 \<Longrightarrow> mm_load_pd buf (int i + int d) = Some (buf ! (i + d), buf ! (i + d + 1))"
    using assms(1) mm_load_pd_in_range [of "i + _" buf] by (simp flip: of_nat_add)
  have l0: "mm_load_pd buf (int i) = Some (buf ! i, buf ! (i + 1))"
    using l [of 0] by simp
  show ?thesis
    apply (subst vecsum_loop.simps)
    using assms(2,3) l [of 2] l [of 4] l [of 6] l [of 8] l [of 10] l [of 12] l [of 14] l0
    apply (simp add: DOUBLES_PER_LOOP_ITER_def ac_simps eval_nat_numeral)
    done
qed

lemma vecsum_loop_lanes:
  assumes "16 dvd i" "16 dvd n" "i \<le> n" "n \<le> length buf" "int n \<le> INT_MAX"
  shows "\<exists>s'. vecsum_loop buf (int n) (int i) s = Some s' \<and>
     lanes s' = lanes s + sum_list (drop i (take n buf))"
  using assms
proof (induction "n - i" arbitrary: i s rule: less_induct)
  case less
  show ?case
  proof (cases "i < n")
    case False
    with less.prems show ?thesis by (subst vecsum_loop.simps) simp
  next
    case True
    with less.prems have le: "i + 16 \<le> n" by presburger
    let ?b = "take n buf"
    let ?s = "\<lparr>sum0 = mm_add_pd (sum0 s) (buf ! i, buf ! (i + 1)),
        sum1 = mm_add_pd (sum1 s) (buf ! (i + 2), buf ! (i + 3)),
        sum2 = mm_add_pd (sum2 s) (buf ! (i + 4), buf ! (i + 5)),
        sum3 = mm_add_pd (sum3 s) (buf ! (i + 6), buf ! (i + 7)),
        sum4 = mm_add_pd (sum4 s) (buf ! (i + 8), buf ! (i + 9)),
        sum5 = mm_add_pd (sum5 s) (buf ! (i + 10), buf ! (i + 11)),
        sum6 = mm_add_pd (sum6 s) (buf ! (i + 12), buf ! (i + 13)),
        sum7 = mm_add_pd (sum7 s) (buf ! (i + 14), buf ! (i + 15))\<rparr>"
    have step: "vecsum_loop buf (int n) (int i) s = vecsum_loop buf (int n) (int (i + 16)) ?s"
      using le less.prems True by (intro vecsum_loop_step) auto
    have "n - (i + 16) < n - i" using le by simp
    moreover have "16 dvd i + 16" using less.prems(1) by simp
    ultimately obtain s' where s': "vecsum_loop buf (int n) (int (i + 16)) ?s = Some s'"
      "lanes s' = lanes ?s + sum_list (drop (i + 16) ?b)"
      using less.hyps [of "i + 16" ?s] less.prems le by blast
    have "i + 16 \<le> length ?b" using le less.prems by simp
    from sum_list_drop_16 [OF this]
    have "lanes ?s + sum_list (drop (i + 16) ?b) = lanes s + sum_list (drop i ?b)"
      using le by (simp add: lanes_def mm_add_pd_def)
    with s' step show ?thesis by simp
  qed
qed

lemma simple_vecsum_loop_sum:
  assumes "i \<le> n" "n \<le> length buf"
  shows "simple_vecsum_loop buf (int n) (int i) acc = Some (acc + sum_list (drop i (take n buf)))"
  using assms
proof (induction "n - i" arbitrary: i acc rule: less_induct)
  case less
  show ?case
  proof (cases "i < n")
    case False
    with less.prems show ?thesis by (subst simple_vecsum_loop.simps) simp
  next
    case True
    have "simple_vecsum_loop buf (int n) (int i) acc =
        simple_vecsum_loop buf (int n) (int (Suc i)) (acc + buf ! i)"
      using True less.prems by (subst simple_vecsum_loop.simps) (simp add: add.commute)
    also have "\<dots> = Some (acc + buf ! i + sum_list (drop (Suc i) (take n buf)))"
      using True less.prems by (intro less.hyps) auto
    finally have a: "simple_vecsum_loop buf (int n) (int i) acc =
        Some (acc + buf ! i + sum_list (drop (Suc i) (take n buf)))" .
    have "drop i (take n buf) = buf ! i # drop (Suc i) (take n buf)"
      using True less.prems by (simp flip: Cons_nth_drop_Suc)
    with a show ?thesis by simp
  qed
qed

lemma vecsum_sum_list:
  assumes "0 \<le> num_doubles" "num_doubles \<le> int (length buf)" "num_doubles \<le> INT_MAX"
    and "num_doubles mod DOUBLES_PER_LOOP_ITER = 0"
  shows "vecsum opts buf num_doubles = Some (sum_list (take (nat num_doubles) buf))"
proof -
  obtain n where n: "num_doubles = int n" using assms(1) nonneg_int_cases by blast
  have d: "16 dvd n" using assms(4) n by (simp add: DOUBLES_PER_LOOP_ITER_def) presburger
  let ?z = "\<lparr>sum0 = mm_set_pd 0 0, sum1 = mm_set_pd 0 0, sum2 = mm_set_pd 0 0,
          sum3 = mm_set_pd 0 0, sum4 = mm_set_pd 0 0, sum5 = mm_set_pd 0 0,
          sum6 = mm_set_pd 0 0, sum7 = mm_set_pd 0 0\<rparr>"
  obtain s' where s': "vecsum_loop buf (int n) (int 0) ?z = Some s'"
      "lanes s' = lanes ?z + sum_list (drop 0 (take n buf))"
    using vecsum_loop_lanes [of 0 n buf ?z] d assms n by auto
  show ?thesis
    using s' n by (simp add: vecsum_def lanes_def mm_add_pd_def mm_set_pd_def mm_storeh_pd_def mm_storel_pd_def)
qed

lemma simple_vecsum_sum_list:
  assumes "0 \<le> num_doubles" "num_doubles \<le> int (length buf)"
  shows "simple_vecsum buf num_doubles = Some (sum_list (take (nat num_doubles) buf))"
proof -
  obtain n where n: "num_doubles = int n" using assms(1) nonneg_int_cases by blast
  show ?thesis
    using simple_vecsum_loop_sum [of 0 n buf 0] assms n by (simp add: simple_vecsum_def)
qed

text \<open>
  C1. For a buffer that holds at least \<open>num_doubles\<close> doubles, with \<open>num_doubles\<close> a
  multiple of 16 (and a value of a C \<open>int\<close>), the vectorized reducer returns a result,
  this result is the sum of the first \<open>num_doubles\<close> elements, and the sequential
  reference reducer returns the same on the same buffer. Doubles are real numbers here:
  the equality is that of exact arithmetic.
\<close>

theorem vecsum_refines_simple_vecsum:
  assumes "0 \<le> num_doubles" "num_doubles \<le> int (length buf)" "num_doubles \<le> INT_MAX"
    and "num_doubles mod DOUBLES_PER_LOOP_ITER = 0"
  shows "vecsum opts buf num_doubles = Some (sum_list (take (nat num_doubles) buf)) \<and>
         simple_vecsum buf num_doubles = vecsum opts buf num_doubles"
  using vecsum_sum_list [OF assms] simple_vecsum_sum_list [OF assms(1,2)] by simp

theorem vecsum_refines_simple_vecsum_witness:
  "(0::int) \<le> 16 \<and> 16 \<le> int (length [1, 2, 3, 4, 5, 6, 7, 8, 9, 10, 11, 12, 13, 14, 15, 16 :: real]) \<and>
   16 \<le> INT_MAX \<and> 16 mod DOUBLES_PER_LOOP_ITER = 0 \<and>
   vecsum \<lparr>path = ''f'', passes = 1, ty = VECSUM_LOCAL, rpc_address = ''default''\<rparr>
     [1, 2, 3, 4, 5, 6, 7, 8, 9, 10, 11, 12, 13, 14, 15, 16] 16 = Some 136 \<and>
   simple_vecsum [1, 2, 3, 4, 5, 6, 7, 8, 9, 10, 11, 12, 13, 14, 15, 16] 16 =
     vecsum \<lparr>path = ''f'', passes = 1, ty = VECSUM_LOCAL, rpc_address = ''default''\<rparr>
       [1, 2, 3, 4, 5, 6, 7, 8, 9, 10, 11, 12, 13, 14, 15, 16] 16"
  using vecsum_refines_simple_vecsum
    [of 16 "[1, 2, 3, 4, 5, 6, 7, 8, 9, 10, 11, 12, 13, 14, 15, 16]"
      "\<lparr>path = ''f'', passes = 1, ty = VECSUM_LOCAL, rpc_address = ''default''\<rparr>"]
  by (simp add: INT_MAX_def DOUBLES_PER_LOOP_ITER_def)

section \<open>The deltas of the read statistics\<close>

lemma updateStats_counter:
  "counter (updateStats newStats r) c = counter r c + (stat_of c newStats - stat_of c (readStats r))"
  by (cases c) (simp_all add: updateStats_def increment_def Let_def)

lemma updateStats_readStats: "readStats (updateStats newStats r) = newStats"
  by (simp add: updateStats_def increment_def Let_def)

lemma fold_updateStats_readStats:
  "readStats (fold updateStats ss r) = last (readStats r # ss)"
  by (induction ss arbitrary: r) (simp_all add: updateStats_readStats)

lemma fold_updateStats_counter:
  "counter (fold updateStats ss r) c =
     counter r c + (stat_of c (last (readStats r # ss)) - stat_of c (readStats r))"
proof (induction ss arbitrary: r)
  case Nil
  show ?case by simp
next
  case (Cons a ss)
  show ?case
    by (simp add: Cons.IH updateStats_counter updateStats_readStats)
qed

lemma sint_diff_no_wrap:
  fixes a b :: "64 word"
  assumes "0 \<le> sint b" "sint b \<le> sint a"
  shows "sint (a - b) = sint a - sint b"
proof -
  have "sint a < 2 ^ 63" using sint_lt [of a] by simp
  with assms have "- (2 ^ 63) \<le> sint a - sint b" "sint a - sint b < 2 ^ 63" by simp_all
  then have "signed_take_bit 63 (sint a - sint b) = sint a - sint b"
    by (simp add: signed_take_bit_int_eq_self)
  then show ?thesis by (simp add: sint_word_ariths)
qed

lemma sorted_nonneg_baselines:
  assumes "0 \<le> sint (stat_of c b)" "sorted (map (\<lambda>st. sint (stat_of c st)) (b # ss))" "i < length ss"
  shows "0 \<le> sint (stat_of c ((b # ss) ! i))" "sint (stat_of c ((b # ss) ! i)) \<le> sint (stat_of c (ss ! i))"
proof -
  let ?f = "\<lambda>st. sint (stat_of c st)"
  let ?xs = "map ?f (b # ss)"
  have i: "i < length (b # ss)" "Suc i < length (b # ss)" using assms(3) by simp_all
  have n: "?xs ! i = ?f ((b # ss) ! i)" "?xs ! Suc i = ?f (ss ! i)" "?xs ! 0 = ?f b"
    using nth_map [OF i(1), of ?f] nth_map [OF i(2), of ?f] by simp_all
  have "?xs ! 0 \<le> ?xs ! i" using assms(2) i by (intro sorted_nth_mono) simp_all
  with assms(1) n show "0 \<le> sint (stat_of c ((b # ss) ! i))" by simp
  have "?xs ! i \<le> ?xs ! Suc i" using assms(2) i by (intro sorted_nth_mono) simp_all
  with n show "sint (stat_of c ((b # ss) ! i)) \<le> sint (stat_of c (ss ! i))" by simp
qed

lemma sorted_nonneg_last:
  assumes "0 \<le> sint (stat_of c b)" "sorted (map (\<lambda>st. sint (stat_of c st)) (b # ss))"
  shows "sint (stat_of c b) \<le> sint (stat_of c (last (b # ss)))"
  using assms(2) by (cases "ss = []") auto

lemma last_Cons_take:
  assumes "i \<le> length ss"
  shows "last (b # take i ss) = (b # ss) ! i"
proof (cases i)
  case 0
  then show ?thesis by simp
next
  case (Suc n)
  with assms have "take i ss = take n ss @ [ss ! n]" by (simp add: take_Suc_conv_app_nth)
  with Suc show ?thesis by simp
qed

text \<open>
  C8. Starting from the baseline \<open>readStats r\<close> and processing the snapshots \<open>ss\<close> in
  order: the baseline ends as the last snapshot; every counter has grown by exactly the
  last snapshot minus the first baseline (the sum of the deltas telescopes, in 64-bit
  arithmetic); the i-th snapshot adds its value minus the previous snapshot (the
  baseline for the first) and becomes the baseline. When the baseline is not negative
  and the snapshots do not decrease (as signed values), every delta is at least 0 and
  the total is the difference of the integers, without wrap-around.
\<close>

theorem updateStats_telescopes:
  "readStats (fold updateStats ss r) = last (readStats r # ss) \<and>
   counter (fold updateStats ss r) c =
     counter r c + (stat_of c (last (readStats r # ss)) - stat_of c (readStats r)) \<and>
   (\<forall>i < length ss.
      counter (fold updateStats (take (Suc i) ss) r) c =
        counter (fold updateStats (take i ss) r) c
          + (stat_of c (ss ! i) - stat_of c ((readStats r # ss) ! i)) \<and>
      readStats (fold updateStats (take (Suc i) ss) r) = ss ! i) \<and>
   (0 \<le> sint (stat_of c (readStats r)) \<and>
    sorted (map (\<lambda>st. sint (stat_of c st)) (readStats r # ss)) \<longrightarrow>
      (\<forall>i < length ss. 0 \<le> sint (stat_of c (ss ! i) - stat_of c ((readStats r # ss) ! i))) \<and>
      sint (stat_of c (last (readStats r # ss)) - stat_of c (readStats r)) =
        sint (stat_of c (last (readStats r # ss))) - sint (stat_of c (readStats r)))"
proof (intro conjI allI impI)
  show "readStats (fold updateStats ss r) = last (readStats r # ss)"
    by (rule fold_updateStats_readStats)
  show "counter (fold updateStats ss r) c =
     counter r c + (stat_of c (last (readStats r # ss)) - stat_of c (readStats r))"
    by (rule fold_updateStats_counter)
next
  fix i assume i: "i < length ss"
  have t: "take (Suc i) ss = take i ss @ [ss ! i]" using i by (simp add: take_Suc_conv_app_nth)
  have b: "readStats (fold updateStats (take i ss) r) = (readStats r # ss) ! i"
    using last_Cons_take [of i ss "readStats r"] i
    by (simp only: fold_updateStats_readStats less_imp_le)
  show "counter (fold updateStats (take (Suc i) ss) r) c =
        counter (fold updateStats (take i ss) r) c
          + (stat_of c (ss ! i) - stat_of c ((readStats r # ss) ! i))"
    by (simp add: t updateStats_counter b)
  show "readStats (fold updateStats (take (Suc i) ss) r) = ss ! i"
    by (simp add: t updateStats_readStats)
next
  fix i
  assume h: "0 \<le> sint (stat_of c (readStats r)) \<and>
    sorted (map (\<lambda>st. sint (stat_of c st)) (readStats r # ss))" and i: "i < length ss"
  from sorted_nonneg_baselines [of c "readStats r" ss i] h i
  show "0 \<le> sint (stat_of c (ss ! i) - stat_of c ((readStats r # ss) ! i))"
    by (simp add: sint_diff_no_wrap)
next
  assume h: "0 \<le> sint (stat_of c (readStats r)) \<and>
    sorted (map (\<lambda>st. sint (stat_of c st)) (readStats r # ss))"
  from sorted_nonneg_last [of c "readStats r" ss] h
  show "sint (stat_of c (last (readStats r # ss)) - stat_of c (readStats r)) =
        sint (stat_of c (last (readStats r # ss))) - sint (stat_of c (readStats r))"
    by (intro sint_diff_no_wrap) simp_all
qed

theorem updateStats_telescopes_witness:
  "counter (fold updateStats
      [\<lparr>totalBytesRead = 100, totalLocalBytesRead = 60, totalShortCircuitBytesRead = 40, totalZeroCopyBytesRead = 10\<rparr>,
       \<lparr>totalBytesRead = 250, totalLocalBytesRead = 60, totalShortCircuitBytesRead = 40, totalZeroCopyBytesRead = 30\<rparr>]
      \<lparr>counter = (\<lambda>c. 7), readStats = \<lparr>totalBytesRead = 0, totalLocalBytesRead = 0,
         totalShortCircuitBytesRead = 0, totalZeroCopyBytesRead = 0\<rparr>\<rparr>) BYTES_READ = 257 \<and>
   0 \<le> sint (stat_of BYTES_READ \<lparr>totalBytesRead = 250, totalLocalBytesRead = 60,
         totalShortCircuitBytesRead = 40, totalZeroCopyBytesRead = 30\<rparr>
       - stat_of BYTES_READ \<lparr>totalBytesRead = 100, totalLocalBytesRead = 60,
         totalShortCircuitBytesRead = 40, totalZeroCopyBytesRead = 10\<rparr>)"
  using updateStats_telescopes
    [of "[\<lparr>totalBytesRead = 100, totalLocalBytesRead = 60, totalShortCircuitBytesRead = 40, totalZeroCopyBytesRead = 10\<rparr>,
       \<lparr>totalBytesRead = 250, totalLocalBytesRead = 60, totalShortCircuitBytesRead = 40, totalZeroCopyBytesRead = 30\<rparr>]"
      "\<lparr>counter = (\<lambda>c. 7), readStats = \<lparr>totalBytesRead = 0, totalLocalBytesRead = 0,
         totalShortCircuitBytesRead = 0, totalZeroCopyBytesRead = 0\<rparr>\<rparr>" BYTES_READ]
  by (simp add: All_less_Suc)

section \<open>The zero-copy pass: partial chunks and the end of the stream\<close>

lemma zcr_while_reaches:
  "zcr_reaches w opts c d \<Longrightarrow>
     zcr_while w pass opts (fst c) (snd c) = zcr_while w pass opts (fst d) (snd d)"
proof (induction rule: zcr_reaches.induct)
  case start
  show ?case by simp
next
  case (next_chunk psum s rzbuf s1 buf v)
  have "zcr_while w pass opts psum s =
      zcr_while w pass opts (psum + v)
        (emit (Call HadoopRzBufferFree) (emit (Vecsum (ZCR_READ_CHUNK_SIZE div sizeof_double)) s1))"
    using next_chunk.hyps(2-5) by (subst zcr_while.simps) simp
  with next_chunk.IH show ?case by simp
qed

text \<open>
  C5. At every iteration of the zero-copy pass (whatever full chunks were reduced before,
  with \<open>psum\<close> their sum): when \<open>hadoopReadZero\<close> returns a buffer whose data is not null
  and whose length is below \<open>ZCR_READ_CHUNK_SIZE\<close>, the pass returns \<open>EINVAL\<close> after the
  partial-read message, without a call of the reducer and without printing a sum; when
  it returns a buffer whose data is null, the pass returns 0 and prints \<open>psum\<close>.
\<close>

theorem zcr_partial_chunk_fails_null_chunk_ends:
  assumes "zcr_reaches w opts (0, s0) (psum, s)"
    and "hadoopReadZero w s ZCR_READ_CHUNK_SIZE = (Some rzbuf, s1)"
  shows "(ptr rzbuf \<noteq> None \<and> rz_length rzbuf < ZCR_READ_CHUNK_SIZE \<longrightarrow>
            vecsum_zcr_loop w pass tdata opts s0 =
              Some (EINVAL, s1\<lparr>out := out s1 @
                [Stderr (ReadZero_partial_read (rz_length rzbuf)), Call HadoopRzBufferFree]\<rparr>)) \<and>
         (ptr rzbuf = None \<longrightarrow>
            vecsum_zcr_loop w pass tdata opts s0 =
              Some (0, s1\<lparr>out := out s1 @
                [Stdout (Finished_zcr_pass pass psum), Call HadoopRzBufferFree]\<rparr>))"
proof -
  have "vecsum_zcr_loop w pass tdata opts s0 = zcr_while w pass opts psum s"
    using zcr_while_reaches [OF assms(1), of pass] by (simp add: vecsum_zcr_loop_def)
  also have "\<dots> =
     (case ptr rzbuf of
             None \<Rightarrow>
               Some (0, emit (Call HadoopRzBufferFree)
                          (emit (Stdout (Finished_zcr_pass pass psum)) s1))
           | Some buf \<Rightarrow>
               if rz_length rzbuf < ZCR_READ_CHUNK_SIZE then
                 Some (EINVAL, emit (Call HadoopRzBufferFree)
                                 (emit (Stderr (ReadZero_partial_read (rz_length rzbuf))) s1))
               else
                 (case vecsum opts (doubles_of (as_double w) buf)
                         (ZCR_READ_CHUNK_SIZE div sizeof_double) of
                    None \<Rightarrow> None
                  | Some v \<Rightarrow>
                      zcr_while w pass opts (psum + v)
                        (emit (Call HadoopRzBufferFree)
                           (emit (Vecsum (ZCR_READ_CHUNK_SIZE div sizeof_double)) s1))))"
    using assms(2) by (subst zcr_while.simps) simp
  finally show ?thesis
    by (auto simp: emit_def)
qed

theorem zcr_partial_chunk_fails_null_chunk_ends_witness:
  "zcr_reaches (calm_world Map.empty [1, 2, 3] [] []) (some_opts VECSUM_ZCR)
     (0, init (calm_world Map.empty [1, 2, 3] [] [])) (0, init (calm_world Map.empty [1, 2, 3] [] [])) \<and>
   hadoopReadZero (calm_world Map.empty [1, 2, 3] [] []) (init (calm_world Map.empty [1, 2, 3] [] []))
       ZCR_READ_CHUNK_SIZE =
     (Some \<lparr>ptr = Some [1, 2, 3], rz_length = 3\<rparr>,
      \<lparr>pos = 3, script = [], seeks = [], errno = 0, heap = (\<lambda>a. 0), out = [Call HadoopReadZero]\<rparr>) \<and>
   vecsum_zcr_loop (calm_world Map.empty [1, 2, 3] [] []) 0 \<lparr>fs = True, hfile = True, tlength = 3\<rparr>
       (some_opts VECSUM_ZCR) (init (calm_world Map.empty [1, 2, 3] [] [])) =
     Some (22, \<lparr>pos = 3, script = [], seeks = [], errno = 0, heap = (\<lambda>a. 0),
        out = [Call HadoopReadZero, Stderr (ReadZero_partial_read 3), Call HadoopRzBufferFree]\<rparr>) \<and>
   zcr_reaches (calm_world Map.empty [] [] []) (some_opts VECSUM_ZCR)
     (0, init (calm_world Map.empty [] [] [])) (0, init (calm_world Map.empty [] [] [])) \<and>
   hadoopReadZero (calm_world Map.empty [] [] []) (init (calm_world Map.empty [] [] []))
       ZCR_READ_CHUNK_SIZE =
     (Some \<lparr>ptr = None, rz_length = 0\<rparr>,
      \<lparr>pos = 0, script = [], seeks = [], errno = 0, heap = (\<lambda>a. 0), out = [Call HadoopReadZero]\<rparr>) \<and>
   vecsum_zcr_loop (calm_world Map.empty [] [] []) 0 \<lparr>fs = True, hfile = True, tlength = 0\<rparr>
       (some_opts VECSUM_ZCR) (init (calm_world Map.empty [] [] [])) =
     Some (0, \<lparr>pos = 0, script = [], seeks = [], errno = 0, heap = (\<lambda>a. 0),
        out = [Call HadoopReadZero, Stdout (Finished_zcr_pass 0 0), Call HadoopRzBufferFree]\<rparr>)"
proof -
  let ?w = "calm_world Map.empty [1, 2, 3] [] []" and ?v = "calm_world Map.empty [] [] []"
  let ?o = "some_opts VECSUM_ZCR"
  have r: "zcr_reaches ?w ?o (0, init ?w) (0, init ?w)" "zcr_reaches ?v ?o (0, init ?v) (0, init ?v)"
    by (rule zcr_reaches.start)+
  have h: "hadoopReadZero ?w (init ?w) ZCR_READ_CHUNK_SIZE =
     (Some \<lparr>ptr = Some [1, 2, 3], rz_length = 3\<rparr>,
      \<lparr>pos = 3, script = [], seeks = [], errno = 0, heap = (\<lambda>a. 0), out = [Call HadoopReadZero]\<rparr>)"
    by (simp add: hadoopReadZero_def zero_copy_def transferred_def calm_world_def init_def emit_def
        ZCR_READ_CHUNK_SIZE_def)
  have g: "hadoopReadZero ?v (init ?v) ZCR_READ_CHUNK_SIZE =
     (Some \<lparr>ptr = None, rz_length = 0\<rparr>,
      \<lparr>pos = 0, script = [], seeks = [], errno = 0, heap = (\<lambda>a. 0), out = [Call HadoopReadZero]\<rparr>)"
    by (simp add: hadoopReadZero_def zero_copy_def transferred_def calm_world_def init_def emit_def
        ZCR_READ_CHUNK_SIZE_def)
  show ?thesis
    using zcr_partial_chunk_fails_null_chunk_ends [OF r(1) h, of 0 "\<lparr>fs = True, hfile = True, tlength = 3\<rparr>"]
      zcr_partial_chunk_fails_null_chunk_ends [OF r(2) g, of 0 "\<lparr>fs = True, hfile = True, tlength = 0\<rparr>"]
      r h g
    by (simp add: ZCR_READ_CHUNK_SIZE_def EINVAL_def)
qed

section \<open>Runs of main that end before the first pass\<close>

lemma atoi_1: "atoi ''1'' = 1" "atoi ''2'' = 2"
  by (simp_all add: atoi_def strtol10_def isspace_c_def isdigit_c_def)

lemma parse_vecsum_type_values:
  "parse_vecsum_type ''libhdfs'' = 0" "parse_vecsum_type ''zcr'' = 1" "parse_vecsum_type ''local'' = 2"
  "parse_vecsum_type ''Local'' = 2"
  by (simp_all add: parse_vecsum_type_def strcasecmp_def tolower_c_def char_of_eq_iff)

lemma attempt_ok: "fault w c = None \<Longrightarrow> attempt w c s = (None, emit (Call c) s)"
  by (simp add: attempt_def)

lemma check_byte_size_constants:
  "check_byte_size VECSUM_CHUNK_SIZE str s = (0, s)"
  "check_byte_size ZCR_READ_CHUNK_SIZE str s = (0, s)"
  "check_byte_size NORMAL_READ_CHUNK_SIZE str s = (0, s)"
  by (simp_all add: check_byte_size_def VECSUM_CHUNK_SIZE_def ZCR_READ_CHUNK_SIZE_def
      NORMAL_READ_CHUNK_SIZE_def sizeof_double_def DOUBLES_PER_LOOP_ITER_def)

lemma main_options:
  "main w =
     (case options_create w (init w) of
        (None, s4) \<Rightarrow> main_done w None None False 1 s4
      | (Some opts, s4) \<Rightarrow>
          if ty opts \<noteq> VECSUM_LOCAL then
            (case test_data_create w opts s4 of
               (None, s5) \<Rightarrow> main_done w (Some opts) None False 1 s5
             | (Some tdata, s5) \<Rightarrow> main_run w opts (Some tdata) s5)
          else main_run w opts None s4)"
  by (simp add: main_def check_byte_size_constants)

lemma options_create_calm:
  assumes "0 < atoi p" "0 \<le> parse_vecsum_type t"
  shows "options_create (calm_world (env_of p t) bs sc sk) s =
    (Some \<lparr>path = ''/f'', passes = atoi p, ty = vecsum_type_of (parse_vecsum_type t),
       rpc_address = ''default''\<rparr>, emit (Call Calloc_options) s)"
  using assms by (simp add: options_create_def calm_world_def env_of_def attempt_def)

lemma options_create_env:
  "options_create (calm_world (env_of ''1'' ''local'') bs sc sk) s =
    (Some \<lparr>path = ''/f'', passes = 1, ty = VECSUM_LOCAL, rpc_address = ''default''\<rparr>, emit (Call Calloc_options) s)"
  by (simp add: options_create_calm atoi_1 parse_vecsum_type_values vecsum_type_of_def)

text \<open>
  C3. When no call fails and the options are valid, a file whose length is not a
  multiple of \<open>VECSUM_CHUNK_SIZE\<close> makes the run fail with the message of the
  misaligned size, for every strategy: in \<open>test_data_create\<close> for the HDFS strategies
  (\<open>main\<close> returns 1), in \<open>vecsum_local\<close> for the local one (\<open>main\<close> returns \<open>EINVAL\<close>).
  The run ends there: nothing is read, the reducer is not called, nothing is printed.
\<close>

theorem unaligned_target_fails_at_open:
  assumes "\<forall>c. fault w c = None"
    and "options_create w (init w) = (Some opts, s)"
    and "int (length (file_bytes w)) mod VECSUM_CHUNK_SIZE \<noteq> 0"
  shows "main w =
    (if ty opts = VECSUM_LOCAL then
       Some (EINVAL, s\<lparr>out := out s @
         [Call Calloc_stopwatch, Call Clock_gettime_start, Call Getrusage,
          Call Sys_open, Call Sys_fstat, Stderr (Local_not_aligned (int (length (file_bytes w)))),
          Call Sys_close, Stderr (Vecsum_failed EINVAL)]\<rparr>)
     else
       Some (1, s\<lparr>out := out s @
         [Call Calloc_test_data, Call HdfsNewBuilder, SetNameNode (rpc_address opts),
          Call HdfsBuilderConnect, Call HdfsGetPathInfo,
          Stderr (File_not_aligned (int (length (file_bytes w)))), Call HdfsDisconnect]\<rparr>))"
proof (cases "ty opts = VECSUM_LOCAL")
  case True
  then show ?thesis
    using assms
    by (simp add: main_options main_run_def stopwatch_create_def attempt_ok vecsum_local_def
        main_done_def emit_def EINVAL_def Let_def)
next
  case False
  have "int (length (file_bytes w)) \<noteq> 0" using assms(3) by auto
  with False show ?thesis
    using assms
    by (simp add: main_options test_data_create_def attempt_ok test_data_free_def
        main_done_def emit_def Let_def)
qed

theorem unaligned_target_fails_at_open_witness:
  "(\<forall>c. fault (calm_world (env_of ''1'' ''local'') (replicate 8388609 0) [] []) c = None) \<and>
   options_create (calm_world (env_of ''1'' ''local'') (replicate 8388609 0) [] [])
       (init (calm_world (env_of ''1'' ''local'') (replicate 8388609 0) [] [])) =
     (Some \<lparr>path = ''/f'', passes = 1, ty = VECSUM_LOCAL, rpc_address = ''default''\<rparr>,
      \<lparr>pos = 0, script = [], seeks = [], errno = 0, heap = (\<lambda>a. 0), out = [Call Calloc_options]\<rparr>) \<and>
   int (length (file_bytes (calm_world (env_of ''1'' ''local'') (replicate 8388609 0) [] [])))
     mod VECSUM_CHUNK_SIZE \<noteq> 0 \<and>
   main (calm_world (env_of ''1'' ''local'') (replicate 8388609 0) [] []) =
     Some (22, \<lparr>pos = 0, script = [], seeks = [], errno = 0, heap = (\<lambda>a. 0),
       out = [Call Calloc_options, Call Calloc_stopwatch, Call Clock_gettime_start, Call Getrusage,
         Call Sys_open, Call Sys_fstat, Stderr (Local_not_aligned 8388609),
         Call Sys_close, Stderr (Vecsum_failed 22)]\<rparr>)"
proof -
  let ?w = "calm_world (env_of ''1'' ''local'') (replicate 8388609 0) [] []"
  have f: "\<forall>c. fault ?w c = None" by (simp add: calm_world_def)
  have o: "options_create ?w (init ?w) =
     (Some \<lparr>path = ''/f'', passes = 1, ty = VECSUM_LOCAL, rpc_address = ''default''\<rparr>,
      \<lparr>pos = 0, script = [], seeks = [], errno = 0, heap = (\<lambda>a. 0), out = [Call Calloc_options]\<rparr>)"
    by (simp add: options_create_env) (simp add: init_def emit_def calm_world_def)
  have l: "int (length (file_bytes ?w)) mod VECSUM_CHUNK_SIZE \<noteq> 0"
    by (simp add: calm_world_def VECSUM_CHUNK_SIZE_def)
  show ?thesis
    using unaligned_target_fails_at_open [OF f o l] f o l
    by (simp add: EINVAL_def) (simp add: calm_world_def)
qed

section \<open>An empty target\<close>

lemma empty_target_hdfs:
  assumes "\<forall>c. fault w c = None"
    and "options_create w (init w) = (Some opts, s)"
    and "ty opts \<noteq> VECSUM_LOCAL"
    and "file_bytes w = []"
  shows "main w = Some (1, s\<lparr>out := out s @
         [Call Calloc_test_data, Call HdfsNewBuilder, SetNameNode (rpc_address opts),
          Call HdfsBuilderConnect, Call HdfsGetPathInfo, Stderr File_has_size_0,
          Call HdfsDisconnect]\<rparr>)"
  using assms
  by (simp add: main_options test_data_create_def attempt_ok test_data_free_def
        main_done_def emit_def Let_def)

lemma empty_target_local:
  assumes "\<forall>c. fault w c = None"
    and "options_create w (init w) = (Some opts, s)"
    and "ty opts = VECSUM_LOCAL"
    and "file_bytes w = []"
  shows "main w = Some (EIO, s\<lparr>errno := EINVAL, out := out s @
         [Call Calloc_stopwatch, Call Clock_gettime_start, Call Getrusage,
          Call Sys_open, Call Sys_fstat, Call Sys_mmap, Stderr (Local_mmap_failed EINVAL),
          Call Sys_close, Stderr (Vecsum_failed EIO)]\<rparr>)"
  using assms
  by (simp add: main_options main_run_def stopwatch_create_def attempt_ok vecsum_local_def
        mmap_def main_done_def emit_def EIO_def EINVAL_def Let_def)

text \<open>
  C9. The run of the local strategy on an empty file, with one pass and no failing call
  (but the mapping of zero bytes): the size 0 passes the alignment check, and the run
  fails in \<open>mmap\<close> with the message of the failed mapping and the status \<open>EIO\<close>, where the
  HDFS strategies fail in \<open>test_data_create\<close> with the message of the empty file.
\<close>

theorem empty_target_local_fails_in_mmap:
  "main (calm_world (env_of ''1'' ''local'') [] [] []) =
     Some (5, \<lparr>pos = 0, script = [], seeks = [], errno = 22, heap = (\<lambda>a. 0),
       out = [Call Calloc_options, Call Calloc_stopwatch, Call Clock_gettime_start, Call Getrusage,
         Call Sys_open, Call Sys_fstat, Call Sys_mmap, Stderr (Local_mmap_failed 22),
         Call Sys_close, Stderr (Vecsum_failed 5)]\<rparr>) \<and>
   main (calm_world (env_of ''1'' ''libhdfs'') [] [] []) =
     Some (1, \<lparr>pos = 0, script = [], seeks = [], errno = 0, heap = (\<lambda>a. 0),
       out = [Call Calloc_options, Call Calloc_test_data, Call HdfsNewBuilder,
         SetNameNode ''default'', Call HdfsBuilderConnect, Call HdfsGetPathInfo,
         Stderr File_has_size_0, Call HdfsDisconnect]\<rparr>)"
proof -
  let ?w = "calm_world (env_of ''1'' ''local'') [] [] []"
  let ?v = "calm_world (env_of ''1'' ''libhdfs'') [] [] []"
  have f: "\<forall>c. fault ?w c = None" "\<forall>c. fault ?v c = None" by (simp_all add: calm_world_def)
  have o: "options_create ?w (init ?w) =
     (Some \<lparr>path = ''/f'', passes = 1, ty = VECSUM_LOCAL, rpc_address = ''default''\<rparr>,
      emit (Call Calloc_options) (init ?w))"
    by (simp add: options_create_env)
  have p: "options_create ?v (init ?v) =
     (Some \<lparr>path = ''/f'', passes = 1, ty = VECSUM_LIBHDFS, rpc_address = ''default''\<rparr>,
      emit (Call Calloc_options) (init ?v))"
    by (simp add: options_create_calm atoi_1 parse_vecsum_type_values vecsum_type_of_def)
  show ?thesis
    using empty_target_local [OF f(1) o] empty_target_hdfs [OF f(2) p]
    by (simp add: EIO_def EINVAL_def init_def emit_def calm_world_def)
qed

section \<open>The streaming pass\<close>

lemma store_Nil: "store m a [] = m"
  by (rule ext) (auto simp: store_def)

lemma store_append: "store (store m a xs) (a + int (length xs)) ys = store m a (xs @ ys)"
proof (rule ext)
  fix x
  have "nat (x - (a + int (length xs))) = nat (x - a) - length xs" by arith
  moreover have "a \<le> x \<Longrightarrow> (nat (x - a) < length xs) = (x < a + int (length xs))" by arith
  ultimately show "store (store m a xs) (a + int (length xs)) ys x = store m a (xs @ ys) x"
    by (auto simp: store_def nth_append)
qed

lemma map_store: "map (\<lambda>k. store m 0 bs (int k)) [0 ..< length bs] = bs"
  by (rule nth_equalityI) (simp_all add: store_def)

lemma stdout_of_append: "stdout_of (xs @ ys) = stdout_of xs @ stdout_of ys"
  by (induction xs rule: stdout_of.induct) simp_all

lemma length_doubles_of: "length (doubles_of dec bs) = length bs div 8"
  by (induction dec bs rule: doubles_of.induct) simp_all

lemma doubles_of_append:
  "8 dvd length xs \<Longrightarrow> doubles_of dec (xs @ ys) = doubles_of dec xs @ doubles_of dec ys"
proof (induction "length xs div 8" arbitrary: xs)
  case 0
  then have "length xs = 0" by (auto simp: dvd_def)
  then show ?case by simp
next
  case (Suc n)
  then have "8 \<le> length xs" by simp
  then obtain b0 b1 b2 b3 b4 b5 b6 b7 bs where
    xs: "xs = b0 # b1 # b2 # b3 # b4 # b5 # b6 # b7 # bs"
    by (auto simp: Suc_le_length_iff eval_nat_numeral)
  then have "length xs = length bs + 8" by simp
  with Suc.prems Suc.hyps(2) have "8 dvd length bs" "n = length bs div 8"
    by simp_all
  with Suc.hyps(1) [of bs] show ?case by (simp add: xs)
qed

lemma doubles_of_replicate:
  "doubles_of dec (replicate (8 * n) b) = replicate n (dec (replicate 8 b))"
proof (induction n)
  case 0
  show ?case by simp
next
  case (Suc n)
  have "replicate (8 * Suc n) b = replicate 8 b @ replicate (8 * n) b"
    by (simp flip: replicate_add)
  also have "doubles_of dec \<dots> = doubles_of dec (replicate 8 b) @ doubles_of dec (replicate (8 * n) b)"
    by (rule doubles_of_append) simp
  also have "doubles_of dec (replicate 8 b) = [dec (replicate 8 b)]"
    by (simp add: eval_nat_numeral)
  finally show ?case using Suc by simp
qed

lemma benign_tl: "benign sc \<Longrightarrow> benign (tl sc)"
  by (cases sc) (simp_all add: benign_def)

lemma hdfsRead_benign:
  assumes "benign (script s)" "0 < len"
  obtains j s1 where "hdfsRead w s buf len = (int j, s1)"
    and "j \<le> avail w s len" and "j = 0 \<Longrightarrow> avail w s len = 0"
    and "pos s1 = pos s + j"
    and "heap s1 = store (heap s) buf (take j (drop (pos s) (file_bytes w)))"
    and "benign (script s1)" and "seeks s1 = seeks s" and "errno s1 = errno s"
    and "out s1 = out s @ [Call HdfsRead]"
proof (cases "script s")
  case Nil
  let ?j = "avail w s len"
  have "hdfsRead w s buf len =
      (int ?j, s\<lparr>out := out s @ [Call HdfsRead], pos := pos s + ?j,
          heap := store (heap s) buf (take ?j (drop (pos s) (file_bytes w)))\<rparr>)"
    using Nil by (simp add: hdfsRead_def put_def transferred_def emit_def avail_def min_def)
  then show ?thesis by (rule that) (use assms Nil in \<open>simp_all add: benign_def\<close>)
next
  case (Cons t r)
  with assms(1) obtain k where t: "t = Deliver k" "0 < k" "benign r"
    by (cases t) (simp_all add: benign_def)
  let ?j = "min k (avail w s len)"
  have "hdfsRead w s buf len =
      (int ?j, s\<lparr>out := out s @ [Call HdfsRead], script := r, pos := pos s + ?j,
          heap := store (heap s) buf (take ?j (drop (pos s) (file_bytes w)))\<rparr>)"
    using Cons t by (simp add: hdfsRead_def put_def transferred_def emit_def avail_def min_def)
  then show ?thesis by (rule that) (use assms t in \<open>auto simp: min_def split: if_splits\<close>)
qed

lemma hdfsReadFully_loop_benign:
  assumes "benign (script s)" "0 \<le> len"
  shows "\<exists>s' j. hdfsReadFully_loop w s buf len nread = (nread + int (avail w s len), s') \<and>
     pos s' = pos s + avail w s len \<and>
     heap s' = store (heap s) buf (take (avail w s len) (drop (pos s) (file_bytes w))) \<and>
     benign (script s') \<and> seeks s' = seeks s \<and> errno s' = errno s \<and>
     out s' = out s @ replicate j (Call HdfsRead)"
  using assms
proof (induction w s buf len nread rule: hdfsReadFully_loop.induct)
  case (1 w s buf len nread)
  show ?case
  proof (cases "0 < len")
    case False
    with "1.prems" have "len = 0" by simp
    then show ?thesis
      using "1.prems" by (subst hdfsReadFully_loop.simps) (simp add: avail_def store_Nil)
  next
    case True
    from hdfsRead_benign [OF "1.prems"(1) True, of w buf]
    obtain j s1 where r: "hdfsRead w s buf len = (int j, s1)"
      and j: "j \<le> avail w s len" "j = 0 \<Longrightarrow> avail w s len = 0"
      and s1: "pos s1 = pos s + j"
        "heap s1 = store (heap s) buf (take j (drop (pos s) (file_bytes w)))"
        "benign (script s1)" "seeks s1 = seeks s" "errno s1 = errno s"
        "out s1 = out s @ [Call HdfsRead]"
      by blast
    show ?thesis
    proof (cases "j = 0")
      case True
      have "hdfsReadFully_loop w s buf len nread = (nread, s1)"
        using \<open>0 < len\<close> r True by (subst hdfsReadFully_loop.simps) simp
      moreover have "out s1 = out s @ replicate 1 (Call HdfsRead)" using s1 by simp
      ultimately show ?thesis using s1(1-5) j(2) [OF True] True
        by (intro exI [of _ s1] exI [of _ 1]) (simp add: store_Nil)
    next
      case False
      have step: "hdfsReadFully_loop w s buf len nread =
          hdfsReadFully_loop w s1 (buf + int j) (len - int j) (nread + int j)"
        using \<open>0 < len\<close> r False by (subst hdfsReadFully_loop.simps) simp
      have le: "0 \<le> len - int j" using j(1) \<open>0 < len\<close> by (simp add: avail_def) arith
      from "1.IH" [OF \<open>0 < len\<close> r [symmetric] _ _ s1(3) le] False
      obtain s' i where
        h: "hdfsReadFully_loop w s1 (buf + int j) (len - int j) (nread + int j) =
              (nread + int j + int (avail w s1 (len - int j)), s')"
          "pos s' = pos s1 + avail w s1 (len - int j)"
          "heap s' = store (heap s1) (buf + int j)
              (take (avail w s1 (len - int j)) (drop (pos s1) (file_bytes w)))"
          "benign (script s')" "seeks s' = seeks s1" "errno s' = errno s1"
          "out s' = out s1 @ replicate i (Call HdfsRead)"
        by auto
      have a: "j + avail w s1 (len - int j) = avail w s len"
        using j(1) unfolding avail_def s1(1) by arith
      have lj: "length (take j (drop (pos s) (file_bytes w))) = j"
        using j(1) by (simp add: avail_def)
      have "heap s' = store (heap s) buf
          (take j (drop (pos s) (file_bytes w)) @
           take (avail w s1 (len - int j)) (drop (pos s + j) (file_bytes w)))"
        using h(3) s1(1,2) store_append [of "heap s" buf "take j (drop (pos s) (file_bytes w))"] lj
        by simp
      also have "take j (drop (pos s) (file_bytes w)) @
           take (avail w s1 (len - int j)) (drop (pos s + j) (file_bytes w)) =
           take (avail w s len) (drop (pos s) (file_bytes w))"
        using a by (simp add: take_add add.commute flip: a)
      finally have hp: "heap s' = store (heap s) buf (take (avail w s len) (drop (pos s) (file_bytes w)))" .
      have "out s' = out s @ replicate (Suc i) (Call HdfsRead)" using h(7) s1(6) by simp
      with step h hp s1 a show ?thesis
        by (metis (no_types, lifting) add.assoc of_nat_add)
    qed
  qed
qed

lemma buffer_store:
  assumes "heap s = store m 0 bs" "length bs = nat NORMAL_READ_CHUNK_SIZE"
  shows "buffer s = bs"
  using map_store [of m bs] assms by (simp add: buffer_def)

lemma vecsum_chunk:
  assumes "length bs = nat NORMAL_READ_CHUNK_SIZE"
  shows "vecsum opts (doubles_of dec bs) (NORMAL_READ_CHUNK_SIZE div sizeof_double) =
     Some (sum_list (doubles_of dec bs))"
proof -
  have l: "length (doubles_of dec bs) = 1048576"
    using assms by (simp add: length_doubles_of NORMAL_READ_CHUNK_SIZE_def)
  have "vecsum opts (doubles_of dec bs) 1048576 =
      Some (sum_list (take (nat 1048576) (doubles_of dec bs)))"
    by (rule vecsum_sum_list) (simp_all add: l INT_MAX_def DOUBLES_PER_LOOP_ITER_def)
  then show ?thesis using l by (simp add: NORMAL_READ_CHUNK_SIZE_def sizeof_double_def)
qed

lemma normal_while_benign:
  assumes "benign (script s)" "pos s + k * nat NORMAL_READ_CHUNK_SIZE = length (file_bytes w)"
  shows "\<exists>s' es. normal_while w pass opts psum s = Some (0, s') \<and>
     pos s' = length (file_bytes w) \<and> benign (script s') \<and> seeks s' = seeks s \<and>
     errno s' = errno s \<and> stdout_of es = [] \<and>
     out s' = out s @ es @
       [Stdout (Finished_normal_pass pass
          (psum + sum_list (doubles_of (as_double w) (drop (pos s) (file_bytes w)))))]"
  using assms
proof (induction k arbitrary: s psum)
  case 0
  then have a: "avail w s NORMAL_READ_CHUNK_SIZE = 0" by (simp add: avail_def)
  have nn: "0 \<le> NORMAL_READ_CHUNK_SIZE" by (simp add: NORMAL_READ_CHUNK_SIZE_def)
  from hdfsReadFully_loop_benign [OF "0.prems"(1) nn, of w 0 0]
  obtain s1 j where "hdfsReadFully_loop w s 0 NORMAL_READ_CHUNK_SIZE 0 =
        (0 + int (avail w s NORMAL_READ_CHUNK_SIZE), s1)"
      "pos s1 = pos s + avail w s NORMAL_READ_CHUNK_SIZE"
      "benign (script s1)" "seeks s1 = seeks s" "errno s1 = errno s"
      "out s1 = out s @ replicate j (Call HdfsRead)"
    by blast
  then have r: "hdfsReadFully w s 0 NORMAL_READ_CHUNK_SIZE = (0, s1)"
    and s1: "pos s1 = pos s" "benign (script s1)" "seeks s1 = seeks s" "errno s1 = errno s"
      "out s1 = out s @ replicate j (Call HdfsRead)"
    unfolding a by (simp_all add: hdfsReadFully_def)
  have "normal_while w pass opts psum s =
      Some (0, emit (Stdout (Finished_normal_pass pass psum)) s1)"
    using r by (subst normal_while.simps) simp
  moreover have "stdout_of (replicate j (Call HdfsRead)) = []" by (induction j) simp_all
  ultimately show ?case
    using s1 "0.prems"(2)
    by (intro exI [of _ "emit (Stdout (Finished_normal_pass pass psum)) s1"]
        exI [of _ "replicate j (Call HdfsRead)"]) (simp add: emit_def)
next
  case (Suc k)
  let ?C = "nat NORMAL_READ_CHUNK_SIZE"
  let ?b = "take ?C (drop (pos s) (file_bytes w))"
  have C: "?C = 8388608" by (simp add: NORMAL_READ_CHUNK_SIZE_def)
  have a: "avail w s NORMAL_READ_CHUNK_SIZE = ?C"
    using Suc.prems(2) by (simp add: avail_def)
  have lb: "length ?b = ?C" using Suc.prems(2) by simp
  have nn: "0 \<le> NORMAL_READ_CHUNK_SIZE" by (simp add: NORMAL_READ_CHUNK_SIZE_def)
  from hdfsReadFully_loop_benign [OF Suc.prems(1) nn, of w 0 0]
  obtain s1 j where "hdfsReadFully_loop w s 0 NORMAL_READ_CHUNK_SIZE 0 =
        (0 + int (avail w s NORMAL_READ_CHUNK_SIZE), s1)"
      "pos s1 = pos s + avail w s NORMAL_READ_CHUNK_SIZE"
      "heap s1 = store (heap s) 0 (take (avail w s NORMAL_READ_CHUNK_SIZE) (drop (pos s) (file_bytes w)))"
      "benign (script s1)" "seeks s1 = seeks s" "errno s1 = errno s"
      "out s1 = out s @ replicate j (Call HdfsRead)"
    by blast
  then have r: "hdfsReadFully w s 0 NORMAL_READ_CHUNK_SIZE = (NORMAL_READ_CHUNK_SIZE, s1)"
    and s1: "pos s1 = pos s + ?C" "heap s1 = store (heap s) 0 ?b"
      "benign (script s1)" "seeks s1 = seeks s" "errno s1 = errno s"
      "out s1 = out s @ replicate j (Call HdfsRead)"
    unfolding a using nn by (simp_all add: hdfsReadFully_def)
  let ?v = "sum_list (doubles_of (as_double w) ?b)"
  let ?s2 = "emit (Vecsum (NORMAL_READ_CHUNK_SIZE div sizeof_double)) s1"
  have "buffer s1 = ?b" using s1(2) lb by (rule buffer_store)
  then have v: "vecsum opts (doubles_of (as_double w) (buffer s1))
      (NORMAL_READ_CHUNK_SIZE div sizeof_double) = Some ?v"
    using vecsum_chunk [OF lb] by simp
  have step: "normal_while w pass opts psum s = normal_while w pass opts (psum + ?v) ?s2"
    using r v by (subst normal_while.simps) (simp add: NORMAL_READ_CHUNK_SIZE_def)
  have p2: "benign (script ?s2)" "pos ?s2 + k * ?C = length (file_bytes w)"
    using s1 Suc.prems(2) by (simp_all add: emit_def)
  from Suc.IH [OF p2, of "psum + ?v"]
  obtain s' es where h: "normal_while w pass opts (psum + ?v) ?s2 = Some (0, s')"
      "pos s' = length (file_bytes w)" "benign (script s')" "seeks s' = seeks ?s2"
      "errno s' = errno ?s2" "stdout_of es = []"
      "out s' = out ?s2 @ es @
       [Stdout (Finished_normal_pass pass
          (psum + ?v + sum_list (doubles_of (as_double w) (drop (pos ?s2) (file_bytes w)))))]"
    by blast
  have "drop (pos s) (file_bytes w) = ?b @ drop (pos s + ?C) (file_bytes w)"
    by (simp add: add.commute flip: drop_drop)
  moreover have "8 dvd length ?b" using lb C by simp
  ultimately have "doubles_of (as_double w) (drop (pos s) (file_bytes w)) =
      doubles_of (as_double w) ?b @ doubles_of (as_double w) (drop (pos s + ?C) (file_bytes w))"
    using doubles_of_append [of ?b "as_double w" "drop (pos s + ?C) (file_bytes w)"] by simp
  then have sum: "psum + ?v + sum_list (doubles_of (as_double w) (drop (pos ?s2) (file_bytes w))) =
      psum + sum_list (doubles_of (as_double w) (drop (pos s) (file_bytes w)))"
    using s1(1) by (simp add: emit_def)
  let ?es = "replicate j (Call HdfsRead) @ [Vecsum (NORMAL_READ_CHUNK_SIZE div sizeof_double)] @ es"
  have "stdout_of (replicate j (Call HdfsRead)) = []" by (induction j) simp_all
  then have "stdout_of ?es = []" using h(6) by (simp add: stdout_of_append)
  moreover have "out s' = out s @ ?es @
       [Stdout (Finished_normal_pass pass
          (psum + sum_list (doubles_of (as_double w) (drop (pos s) (file_bytes w)))))]"
    using h(7) s1(6) unfolding sum by (simp add: emit_def)
  ultimately show ?case
    using step h(1-5) s1
    by (intro exI [of _ s'] exI [of _ ?es]) (simp add: emit_def)
qed

lemma options_create_Some:
  assumes "options_create w s = (Some opts, s0)"
  shows "s0 = emit (Call Calloc_options) s"
  using assms
  by (auto simp: options_create_def attempt_def split: option.splits if_splits)

lemma hdfsSeek_fields:
  "out (snd (hdfsSeek s p)) = out s @ [Call HdfsSeek]"
  "script (snd (hdfsSeek s p)) = script s"
  by (simp_all add: hdfsSeek_def emit_def Let_def split: list.splits)

lemma test_data_create_ok:
  assumes "\<forall>c. fault w c = None" "file_bytes w \<noteq> []"
    and "int (length (file_bytes w)) mod VECSUM_CHUNK_SIZE = 0"
  shows "test_data_create w opts s =
     (Some \<lparr>fs = True, hfile = True, tlength = int (length (file_bytes w))\<rparr>,
      s\<lparr>out := out s @ [Call Calloc_test_data, Call HdfsNewBuilder, SetNameNode (rpc_address opts),
         Call HdfsBuilderConnect, Call HdfsGetPathInfo, Call HdfsOpenFile]\<rparr>)"
  using assms by (simp add: test_data_create_def attempt_ok emit_def Let_def)

lemma stopwatch_create_ok:
  assumes "\<forall>c. fault w c = None"
  shows "stopwatch_create w s =
     (True, s\<lparr>out := out s @ [Call Calloc_stopwatch, Call Clock_gettime_start, Call Getrusage]\<rparr>)"
  using assms by (simp add: stopwatch_create_def attempt_ok emit_def)

text \<open>
  The run of the streaming strategy with one pass, in which no call fails and the reads
  are short at worst, on a file of 16777216 bytes whose doubles are all 1: the calls of
  \<open>printf\<close> and their arguments.
\<close>

lemma streaming_16MiB_run:
  assumes "\<forall>c. fault w c = None"
    and "options_create w (init w) = (Some opts, s0)"
    and "ty opts = VECSUM_LIBHDFS" and "passes opts = 1"
    and "length (file_bytes w) = 16777216"
    and "doubles_of (as_double w) (file_bytes w) = replicate 2097152 1"
    and "benign (read_script w)"
  shows "\<exists>s'. main w = Some (0, s') \<and>
     stdout_of (out s') = [Finished_normal_pass 0 2097152, Stopwatch_took 16777216]"
proof -
  let ?td = "\<lparr>fs = True, hfile = True, tlength = int (length (file_bytes w))\<rparr>"
  let ?s7 = "s0\<lparr>out := out s0 @ [Call Calloc_test_data, Call HdfsNewBuilder,
         SetNameNode (rpc_address opts), Call HdfsBuilderConnect, Call HdfsGetPathInfo,
         Call HdfsOpenFile, Call Calloc_stopwatch, Call Clock_gettime_start, Call Getrusage,
         Call Malloc_buf]\<rparr>"
  have s0: "s0 = emit (Call Calloc_options) (init w)"
    using assms(2) by (rule options_create_Some)
  have ne: "file_bytes w \<noteq> []" using assms(5) by auto
  have al: "int (length (file_bytes w)) mod VECSUM_CHUNK_SIZE = 0"
    using assms(5) by (simp add: VECSUM_CHUNK_SIZE_def)
  have p7: "benign (script ?s7)" "pos ?s7 + 2 * nat NORMAL_READ_CHUNK_SIZE = length (file_bytes w)"
    using assms(5,7) by (simp_all add: s0 emit_def init_def NORMAL_READ_CHUNK_SIZE_def)
  from normal_while_benign [OF p7, of 0 opts 0]
  obtain s8 es where h: "normal_while w 0 opts 0 ?s7 = Some (0, s8)" "stdout_of es = []"
      "out s8 = out ?s7 @ es @
       [Stdout (Finished_normal_pass 0
          (0 + sum_list (doubles_of (as_double w) (drop (pos ?s7) (file_bytes w)))))]"
    by blast
  have "pos ?s7 = 0" by (simp add: s0 emit_def init_def)
  then have o8: "out s8 = out ?s7 @ es @ [Stdout (Finished_normal_pass 0 2097152)]"
    using h(3) assms(6) by (simp add: sum_list_replicate)
  let ?s9 = "snd (hdfsSeek s8 0)"
  have np: "normal_passes w ?td opts 0 ?s7 = Some (0, ?s9)"
    using assms(4) h(1)
    by (simp add: normal_passes.simps [of w ?td opts 0] normal_passes.simps [of w ?td opts 1]
        vecsum_normal_loop_def)
  have run: "vecsum_libhdfs w ?td opts
      (s0\<lparr>out := out s0 @ [Call Calloc_test_data, Call HdfsNewBuilder,
         SetNameNode (rpc_address opts), Call HdfsBuilderConnect, Call HdfsGetPathInfo,
         Call HdfsOpenFile, Call Calloc_stopwatch, Call Clock_gettime_start, Call Getrusage]\<rparr>) =
      Some (0, ?s9)"
    using np assms(1) by (simp add: vecsum_libhdfs_def attempt_ok emit_def)
  let ?s' = "test_data_free ?td (stopwatch_stop w (int (length (file_bytes w)) * passes opts) ?s9)"
  have m: "main w = Some (0, ?s')"
    using assms(1,2,3) run
    by (simp add: main_options test_data_create_ok [OF assms(1) ne al]
        main_run_def stopwatch_create_ok [OF assms(1)] main_done_def vecsum_length_def)
  have "stdout_of (out ?s') = [Finished_normal_pass 0 2097152, Stopwatch_took 16777216]"
    using assms(1,4,5) h(2)
    by (simp add: test_data_free_def stopwatch_stop_def attempt_ok emit_def hdfsSeek_fields o8
        stdout_of_append s0 init_def)
  with m show ?thesis by blast
qed

text \<open>What \<open>%g\<close> writes for the sum of that run, and for a sum that is less by two.\<close>

lemma printf_g_2097152: "printf_g 2097152 = ''2.09715e+06''"
  by (simp add: printf_g_def g_round_def exponent10_def exponent_up.simps
      round_half_even_def scale10_def style_e_def fraction_def strip_zeros_def
      show_nat.simps Let_def)

lemma printf_g_2097150: "printf_g 2097150 = ''2.09715e+06''"
  by (simp add: printf_g_def g_round_def exponent10_def exponent_up.simps
      round_half_even_def scale10_def style_e_def fraction_def strip_zeros_def
      show_nat.simps Let_def)

text \<open>The file of 2097152 doubles 1.0 and its world.\<close>

lemma binary64_one: "binary64 one_bytes = 1"
  by (simp add: binary64_def one_bytes_def little_endian_def Let_def)

lemma doubles_of_concat_replicate:
  "doubles_of dec (concat (replicate n [b0, b1, b2, b3, b4, b5, b6, b7])) =
     replicate n (dec [b0, b1, b2, b3, b4, b5, b6, b7])"
  by (induction n) simp_all

lemma ones_world_options:
  "options_create (ones_world sc) s =
     (Some \<lparr>path = ''/f'', passes = 1, ty = VECSUM_LIBHDFS, rpc_address = ''default''\<rparr>,
      emit (Call Calloc_options) s)"
  by (simp add: options_create_def ones_world_def env_of_def attempt_def atoi_1
      parse_vecsum_type_values vecsum_type_of_def)

lemma ones_world_file:
  "length (file_bytes (ones_world sc)) = 16777216"
  "doubles_of (as_double (ones_world sc)) (file_bytes (ones_world sc)) = replicate 2097152 1"
  using doubles_of_concat_replicate [of binary64 2097152 0 0 0 0 0 0 "0xF0" "0x3F"] binary64_one
  by (simp_all add: ones_world_def one_bytes_def length_concat sum_list_replicate)

text \<open>
  C2, as amended. A run of the streaming strategy with one pass, in which no call fails
  and the reads are short at worst, on a file of 16777216 bytes whose doubles are all 1:
  \<open>main\<close> returns 0; the sum that pass 0 computes and hands to \<open>printf\<close> is exactly
  2097152, and the byte count of the stopwatch line is exactly 16777216 (the length times
  the passes); the sum is written with \<open>%g\<close>, to six significant digits, so that the line
  of pass 0 reads \<open>finished normal pass 0.  sum = 2.09715e+06\<close>.
\<close>

theorem streaming_16MiB_of_ones:
  assumes "\<forall>c. fault w c = None"
    and "options_create w (init w) = (Some opts, s0)"
    and "ty opts = VECSUM_LIBHDFS" and "passes opts = 1"
    and "length (file_bytes w) = 16777216"
    and "doubles_of (as_double w) (file_bytes w) = replicate 2097152 1"
    and "benign (read_script w)"
  shows "\<exists>s'. main w = Some (0, s') \<and>
     stdout_of (out s') = [Finished_normal_pass 0 2097152, Stopwatch_took 16777216] \<and>
     map printed (stdout_of (out s')) =
       [Some (''finished normal pass 0.  sum = 2.09715e+06'' @ [CHR 0x0A]), None]"
proof -
  from streaming_16MiB_run [OF assms]
  obtain s' where s: "main w = Some (0, s')"
      "stdout_of (out s') = [Finished_normal_pass 0 2097152, Stopwatch_took 16777216]"
    by blast
  have p: "map printed (stdout_of (out s')) =
      [Some (''finished normal pass 0.  sum = 2.09715e+06'' @ [CHR 0x0A]), None]"
    unfolding s(2) by (simp add: printf_g_2097152 printf_d_def show_nat.simps)
  show ?thesis by (intro exI [of _ s'] conjI) (rule s p)+
qed

theorem streaming_16MiB_of_ones_witness:
  "(\<forall>c. fault (ones_world [Deliver 5, Deliver 100]) c = None) \<and>
   options_create (ones_world [Deliver 5, Deliver 100]) (init (ones_world [Deliver 5, Deliver 100])) =
     (Some \<lparr>path = ''/f'', passes = 1, ty = VECSUM_LIBHDFS, rpc_address = ''default''\<rparr>,
      emit (Call Calloc_options) (init (ones_world [Deliver 5, Deliver 100]))) \<and>
   length (file_bytes (ones_world [Deliver 5, Deliver 100])) = 16777216 \<and>
   doubles_of (as_double (ones_world [Deliver 5, Deliver 100]))
     (file_bytes (ones_world [Deliver 5, Deliver 100])) = replicate 2097152 1 \<and>
   benign (read_script (ones_world [Deliver 5, Deliver 100])) \<and>
   (\<exists>s'. main (ones_world [Deliver 5, Deliver 100]) = Some (0, s') \<and>
     stdout_of (out s') = [Finished_normal_pass 0 2097152, Stopwatch_took 16777216] \<and>
     map printed (stdout_of (out s')) =
       [Some (''finished normal pass 0.  sum = 2.09715e+06'' @ [CHR 0x0A]), None])"
proof -
  let ?w = "ones_world [Deliver 5, Deliver 100]"
  let ?o = "\<lparr>path = ''/f'', passes = 1, ty = VECSUM_LIBHDFS, rpc_address = ''default''\<rparr>"
  have f: "\<forall>c. fault ?w c = None" by (simp add: ones_world_def)
  have o: "options_create ?w (init ?w) = (Some ?o, emit (Call Calloc_options) (init ?w))"
    by (rule ones_world_options)
  note l = ones_world_file(1) [of "[Deliver 5, Deliver 100]"]
  note d = ones_world_file(2) [of "[Deliver 5, Deliver 100]"]
  have b: "benign (read_script ?w)" by (simp add: ones_world_def benign_def)
  show ?thesis
    using streaming_16MiB_of_ones [OF f o _ _ l d b] f o l d b by simp
qed

text \<open>
  C2, as stated, fails at that run when every read is a full one: the run does not
  report the sum 2097152 exactly. The line of pass 0 gives six digits of it,
  \<open>2.09715e+06\<close>, which is not the text of all its digits and is what the sum 2097150
  is written as, too.
\<close>

theorem streaming_16MiB_sum_is_rounded:
  "\<exists>s'. main (ones_world []) = Some (0, s') \<and>
     map printed (stdout_of (out s')) =
       [Some (''finished normal pass 0.  sum = 2.09715e+06'' @ [CHR 0x0A]), None] \<and>
     printf_g 2097152 \<noteq> printf_d 2097152 \<and>
     printed (Finished_normal_pass 0 2097152) = printed (Finished_normal_pass 0 2097150)"
proof -
  let ?w = "ones_world []"
  let ?o = "\<lparr>path = ''/f'', passes = 1, ty = VECSUM_LIBHDFS, rpc_address = ''default''\<rparr>"
  have f: "\<forall>c. fault ?w c = None" by (simp add: ones_world_def)
  have b: "benign (read_script ?w)" by (simp add: ones_world_def benign_def)
  have t: "ty ?o = VECSUM_LIBHDFS" "passes ?o = 1" by simp_all
  from streaming_16MiB_run [OF f ones_world_options t ones_world_file b]
  obtain s' where s: "main ?w = Some (0, s')"
      "stdout_of (out s') = [Finished_normal_pass 0 2097152, Stopwatch_took 16777216]"
    by blast
  have p: "map printed (stdout_of (out s')) =
      [Some (''finished normal pass 0.  sum = 2.09715e+06'' @ [CHR 0x0A]), None]"
    unfolding s(2) by (simp add: printf_g_2097152 printf_d_def show_nat.simps)
  have n: "printf_g 2097152 \<noteq> printf_d 2097152"
    by (simp add: printf_g_2097152 printf_d_def show_nat.simps)
  have e: "printed (Finished_normal_pass 0 2097152) = printed (Finished_normal_pass 0 2097150)"
    by (simp add: printf_g_2097152 printf_g_2097150)
  show ?thesis by (intro exI [of _ s'] conjI) (rule s(1) p n e)+
qed

section \<open>A failing seek between two passes\<close>

lemma hdfsSeek_scripted:
  assumes "seeks s = b # r"
  shows "hdfsSeek s p = (if b then - 1 else 0,
     s\<lparr>out := out s @ [Call HdfsSeek], seeks := r, pos := if b then pos s else p\<rparr>)"
  using assms by (simp add: hdfsSeek_def emit_def)

lemma streaming_two_passes_seek_fails:
  assumes "\<forall>c. fault w c = None"
    and "options_create w (init w) = (Some opts, s0)"
    and "ty opts = VECSUM_LIBHDFS" and "passes opts = 2"
    and "length (file_bytes w) = Suc k * nat NORMAL_READ_CHUNK_SIZE"
    and "benign (read_script w)"
    and "seek_script w = b # r"
  shows "\<exists>s'. main w = Some (0, s') \<and>
     stdout_of (out s') =
       [Finished_normal_pass 0 (sum_list (doubles_of (as_double w) (file_bytes w))),
        Finished_normal_pass 1 (if b then 0 else sum_list (doubles_of (as_double w) (file_bytes w))),
        Stopwatch_took (int (length (file_bytes w)) * 2)]"
proof -
  let ?td = "\<lparr>fs = True, hfile = True, tlength = int (length (file_bytes w))\<rparr>"
  let ?s6 = "s0\<lparr>out := out s0 @ [Call Calloc_test_data, Call HdfsNewBuilder,
         SetNameNode (rpc_address opts), Call HdfsBuilderConnect, Call HdfsGetPathInfo,
         Call HdfsOpenFile, Call Calloc_stopwatch, Call Clock_gettime_start, Call Getrusage]\<rparr>"
  let ?s7 = "emit (Call Malloc_buf) ?s6"
  have s0: "s0 = emit (Call Calloc_options) (init w)"
    using assms(2) by (rule options_create_Some)
  have ne: "file_bytes w \<noteq> []" using assms(5) by (auto simp: NORMAL_READ_CHUNK_SIZE_def)
  have al: "int (length (file_bytes w)) mod VECSUM_CHUNK_SIZE = 0"
    using assms(5) by (simp add: VECSUM_CHUNK_SIZE_def NORMAL_READ_CHUNK_SIZE_def)
  have p7: "benign (script ?s7)" "pos ?s7 + Suc k * nat NORMAL_READ_CHUNK_SIZE = length (file_bytes w)"
    using assms(5,6) by (simp_all add: s0 emit_def init_def)
  from normal_while_benign [OF p7, of 0 opts 0]
  obtain s8 es where h: "normal_while w 0 opts 0 ?s7 = Some (0, s8)"
      "pos s8 = length (file_bytes w)" "benign (script s8)" "seeks s8 = seeks ?s7"
      "stdout_of es = []"
      "out s8 = out ?s7 @ es @
       [Stdout (Finished_normal_pass 0
          (0 + sum_list (doubles_of (as_double w) (drop (pos ?s7) (file_bytes w)))))]"
    by blast
  have "pos ?s7 = 0" by (simp add: s0 emit_def init_def)
  then have o8: "out s8 = out ?s7 @ es @
      [Stdout (Finished_normal_pass 0 (sum_list (doubles_of (as_double w) (file_bytes w))))]"
    using h(6) by simp
  have k8: "seeks s8 = b # r" using h(4) assms(7) by (simp add: s0 emit_def init_def)
  let ?s9 = "s8\<lparr>out := out s8 @ [Call HdfsSeek], seeks := r, pos := if b then pos s8 else 0\<rparr>"
  have sk: "hdfsSeek s8 0 = (if b then - 1 else 0, ?s9)" using k8 by (rule hdfsSeek_scripted)
  have p9: "benign (script ?s9)"
    "pos ?s9 + (if b then 0 else Suc k) * nat NORMAL_READ_CHUNK_SIZE = length (file_bytes w)"
    using h(2,3) assms(5) by simp_all
  from normal_while_benign [OF p9, of 1 opts 0]
  obtain s10 fs where g: "normal_while w 1 opts 0 ?s9 = Some (0, s10)"
      "stdout_of fs = []"
      "out s10 = out ?s9 @ fs @
       [Stdout (Finished_normal_pass 1
          (0 + sum_list (doubles_of (as_double w) (drop (pos ?s9) (file_bytes w)))))]"
    by blast
  have o10: "out s10 = out ?s9 @ fs @ [Stdout (Finished_normal_pass 1
      (if b then 0 else sum_list (doubles_of (as_double w) (file_bytes w))))]"
    using g(3) h(2) by simp
  let ?s11 = "snd (hdfsSeek s10 0)"
  have np: "normal_passes w ?td opts 0 ?s7 = Some (0, ?s11)"
    using assms(4) h(1) g(1) sk
    by (simp add: normal_passes.simps [of w ?td opts 0] normal_passes.simps [of w ?td opts 1]
        normal_passes.simps [of w ?td opts 2] vecsum_normal_loop_def)
  have run: "vecsum_libhdfs w ?td opts ?s6 = Some (0, ?s11)"
    using np assms(1) by (simp add: vecsum_libhdfs_def attempt_ok)
  let ?s' = "test_data_free ?td (stopwatch_stop w (int (length (file_bytes w)) * passes opts) ?s11)"
  have m: "main w = Some (0, ?s')"
    using assms(1,2,3) run
    by (simp add: main_options test_data_create_ok [OF assms(1) ne al]
        main_run_def stopwatch_create_ok [OF assms(1)] main_done_def vecsum_length_def)
  have "stdout_of (out ?s') =
       [Finished_normal_pass 0 (sum_list (doubles_of (as_double w) (file_bytes w))),
        Finished_normal_pass 1 (if b then 0 else sum_list (doubles_of (as_double w) (file_bytes w))),
        Stopwatch_took (int (length (file_bytes w)) * 2)]"
    using assms(1,4) h(5) g(2)
    by (simp add: test_data_free_def stopwatch_stop_def attempt_ok emit_def hdfsSeek_fields o8 o10
        stdout_of_append s0 init_def)
  with m show ?thesis by blast
qed

text \<open>
  C7. Two passes of the streaming strategy over a file of one chunk (8388608 bytes, all
  doubles 1), no call failing but the \<open>hdfsSeek\<close> after pass 0: the return value of
  \<open>hdfsSeek\<close> is not looked at, pass 1 starts at the end of the file and prints the sum
  0, and \<open>main\<close> returns 0 after the stopwatch line for twice the length. With a seek
  that succeeds, pass 1 prints the sum 1048576 as pass 0 does.
\<close>

theorem failed_seek_is_ignored:
  "(\<exists>s'. main (calm_world (env_of ''2'' ''libhdfs'') (replicate 8388608 0) [] [True]) = Some (0, s') \<and>
     stdout_of (out s') =
       [Finished_normal_pass 0 1048576, Finished_normal_pass 1 0, Stopwatch_took 16777216]) \<and>
   (\<exists>s'. main (calm_world (env_of ''2'' ''libhdfs'') (replicate 8388608 0) [] [False]) = Some (0, s') \<and>
     stdout_of (out s') =
       [Finished_normal_pass 0 1048576, Finished_normal_pass 1 1048576, Stopwatch_took 16777216])"
proof -
  have "\<exists>s'. main (calm_world (env_of ''2'' ''libhdfs'') (replicate 8388608 0) [] [b]) = Some (0, s') \<and>
     stdout_of (out s') =
       [Finished_normal_pass 0 1048576, Finished_normal_pass 1 (if b then 0 else 1048576),
        Stopwatch_took 16777216]" for b
  proof -
    let ?w = "calm_world (env_of ''2'' ''libhdfs'') (replicate 8388608 0) [] [b]"
    let ?o = "\<lparr>path = ''/f'', passes = 2, ty = VECSUM_LIBHDFS, rpc_address = ''default''\<rparr>"
    have f: "\<forall>c. fault ?w c = None" by (simp add: calm_world_def)
    have o: "options_create ?w (init ?w) = (Some ?o, emit (Call Calloc_options) (init ?w))"
      by (simp add: options_create_calm atoi_1 parse_vecsum_type_values vecsum_type_of_def)
    have l: "length (file_bytes ?w) = Suc 0 * nat NORMAL_READ_CHUNK_SIZE"
      by (simp add: calm_world_def NORMAL_READ_CHUNK_SIZE_def)
    have d: "doubles_of (as_double (calm_world e (replicate 8388608 0) sc sk))
        (file_bytes (calm_world e (replicate 8388608 0) sc sk)) = replicate 1048576 1" for e sc sk
      using doubles_of_replicate [of "\<lambda>b. 1" 1048576 0] by (simp add: calm_world_def)
    have g: "benign (read_script ?w)" by (simp add: calm_world_def benign_def)
    have k: "seek_script ?w = b # []" by (simp add: calm_world_def)
    from streaming_two_passes_seek_fails [OF f o _ _ l g k]
    show ?thesis by (simp add: d l sum_list_replicate NORMAL_READ_CHUNK_SIZE_def cong: if_cong)
  qed
  from this [of True] this [of False] show ?thesis by simp
qed

section \<open>The events of each function\<close>

lemma emits_refl: "emits P s s"
  by (simp add: emits_def)

lemma emits_same: "out s' = out s \<Longrightarrow> emits P s s'"
  by (simp add: emits_def)

lemma emits_trans: "emits P s s1 \<Longrightarrow> emits P s1 s2 \<Longrightarrow> emits P s s2"
  by (auto simp: emits_def)

lemma emits_emit: "P e \<Longrightarrow> emits P s (emit e s)"
  by (simp add: emits_def emit_def)

lemma emits_step: "emits P s s1 \<Longrightarrow> P e \<Longrightarrow> emits P s (emit e s1)"
  by (auto simp: emits_def emit_def)

lemma emits_mono: "emits P s s' \<Longrightarrow> (\<And>e. P e \<Longrightarrow> Q e) \<Longrightarrow> emits Q s s'"
  by (auto simp: emits_def list_all_iff)

lemma emits_attempt:
  assumes "attempt w c s = (r, s')" "P (Call c)"
  shows "emits P s s'"
  using assms by (auto simp: attempt_def emits_def emit_def split: option.splits)

lemma options_create_emits:
  assumes "options_create w s = (r, s')" "P (Call Calloc_options)" "\<And>m. P (Stderr m)"
  shows "emits P s s'"
  using assms
  by (auto simp: options_create_def attempt_def emits_def emit_def
      split: option.splits if_splits)

lemma stopwatch_create_emits:
  assumes "stopwatch_create w s = (r, s')"
    and "P (Call Calloc_stopwatch)" "P (Call Clock_gettime_start)" "P (Call Getrusage)"
    and "\<And>m. P (Stderr m)"
  shows "emits P s s'"
  using assms
  by (auto simp: stopwatch_create_def attempt_def emits_def emit_def
      split: option.splits if_splits)

lemma stopwatch_stop_emits:
  assumes "P (Call Clock_gettime_stop)" "\<And>m. P (Stderr m)" "\<And>l. P (Stdout l)"
  shows "emits P s (stopwatch_stop w n s)"
  using assms
  by (auto simp: stopwatch_stop_def attempt_def emits_def emit_def split: option.splits)

lemma test_data_free_emits:
  assumes "P (Call HdfsCloseFile)" "P (Call HdfsDisconnect)"
  shows "emits P s (test_data_free td s)"
  using assms by (auto simp: test_data_free_def emits_def emit_def)

lemma test_data_create_emits:
  assumes "test_data_create w opts s = (r, s')"
    and "P (Call Calloc_test_data)" "P (Call HdfsNewBuilder)" "P (Call HdfsBuilderConnect)"
      "P (Call HdfsGetPathInfo)" "P (Call HdfsOpenFile)" "P (Call HdfsDisconnect)"
    and "\<And>a. P (SetNameNode a)" "\<And>m. P (Stderr m)"
  shows "emits P s s'"
  using assms
  by (auto simp: test_data_create_def test_data_free_def attempt_def emits_def emit_def Let_def
      split: option.splits if_splits)

lemma local_passes_emits:
  assumes "local_passes w opts len pass s = Some s'"
    and "\<And>n. P (Vecsum n)" "\<And>l. P (Stdout l)"
  shows "emits P s s'"
  using assms(1)
proof (induction w opts len pass s rule: local_passes.induct)
  case (1 w opts len pass s)
  show ?case
  proof (cases "pass < passes opts")
    case False
    with "1.prems" show ?thesis by (simp add: local_passes.simps [of w opts len pass] emits_refl)
  next
    case True
    with "1.prems" obtain v where
      v: "vecsum opts (doubles_of (as_double w) (file_bytes w)) (int_of_size_t (len div sizeof_double)) = Some v"
      and r: "local_passes w opts len (pass + 1)
               (emit (Stdout (Finished_local_pass pass v))
                  (emit (Vecsum (int_of_size_t (len div sizeof_double))) s)) = Some s'"
      by (auto simp: local_passes.simps [of w opts len pass] split: option.splits)
    have "emits P s (emit (Stdout (Finished_local_pass pass v))
                  (emit (Vecsum (int_of_size_t (len div sizeof_double))) s))"
      by (intro emits_step emits_emit assms)
    from this "1.IH" [OF True v r] show ?thesis by (rule emits_trans)
  qed
qed

lemma vecsum_local_emits:
  assumes "vecsum_local w opts s = Some (r, s')"
    and "P (Call Sys_open)" "P (Call Sys_fstat)" "P (Call Sys_mmap)" "P (Call Sys_munmap)"
      "P (Call Sys_close)"
    and "\<And>n. P (Vecsum n)" "\<And>l. P (Stdout l)" "\<And>m. P (Stderr m)"
  shows "emits P s s'"
proof -
  have lp: "\<exists>es. out b = out a @ es \<and> list_all P es"
    if "local_passes w opts len 0 a = Some b" for a b len
    using local_passes_emits [OF that assms(7,8)] by (simp add: emits_def)
  show ?thesis
    using assms
    by (auto simp: vecsum_local_def mmap_def attempt_def Let_def emits_def emit_def
        split: option.splits if_splits prod.splits dest!: lp)
qed

lemma hdfsSeek_emits:
  assumes "P (Call HdfsSeek)"
  shows "emits P s (snd (hdfsSeek s p))"
  using assms by (auto simp: hdfsSeek_def emits_def emit_def Let_def split: list.splits)

lemma hdfsRead_emits:
  assumes "hdfsRead w s buf len = (ret, s')" "P (Call HdfsRead)"
  shows "emits P s s'"
  using assms
  by (auto simp: hdfsRead_def put_def emits_def emit_def Let_def split: list.splits transfer.splits)

lemma hdfsReadFully_loop_emits:
  assumes "hdfsReadFully_loop w s buf len nread = (res, s')" "P (Call HdfsRead)"
  shows "emits P s s'"
  using assms(1)
proof (induction w s buf len nread rule: hdfsReadFully_loop.induct)
  case (1 w s buf len nread)
  show ?case
  proof (cases "0 < len")
    case False
    with "1.prems" show ?thesis by (simp add: hdfsReadFully_loop.simps [of w s] emits_refl)
  next
    case True
    obtain ret s1 where r: "hdfsRead w s buf len = (ret, s1)" by force
    have e1: "emits P s s1" using r assms(2) by (rule hdfsRead_emits)
    show ?thesis
    proof (cases "(ret < 0 \<and> errno s1 \<noteq> EINTR) \<or> ret = 0")
      case True
      with "1.prems" \<open>0 < len\<close> r have "s' = s1"
        by (auto simp: hdfsReadFully_loop.simps [of w s])
      with e1 show ?thesis by simp
    next
      case False
      with "1.prems" \<open>0 < len\<close> r
      have "hdfsReadFully_loop w s1 (buf + ret) (len - ret) (nread + ret) = (res, s')"
        by (auto simp: hdfsReadFully_loop.simps [of w s])
      from "1.IH" [OF \<open>0 < len\<close> r [symmetric] _ _ this] False
      have "emits P s1 s'" by auto
      with e1 show ?thesis by (rule emits_trans)
    qed
  qed
qed

lemma normal_while_emits:
  assumes "normal_while w pass opts psum s = Some (r, s')"
    and "P (Call HdfsRead)" "\<And>n. P (Vecsum n)" "\<And>l. P (Stdout l)" "\<And>m. P (Stderr m)"
  shows "emits P s s'"
  using assms(1)
proof (induction w pass opts psum s rule: normal_while.induct)
  case (1 w pass opts psum s)
  obtain res s1 where r: "hdfsReadFully w s 0 NORMAL_READ_CHUNK_SIZE = (res, s1)" by force
  then have e1: "emits P s s1"
    using hdfsReadFully_loop_emits [of w s 0 NORMAL_READ_CHUNK_SIZE 0 res s1 P] assms(2)
    by (simp add: hdfsReadFully_def)
  show ?case
  proof (cases "res = 0 \<or> res < 0 \<or> res < NORMAL_READ_CHUNK_SIZE")
    case True
    with "1.prems" r obtain e where "s' = emit e s1" "P e"
      using assms(4,5) by (auto simp: normal_while.simps [of w pass opts psum s] split: if_splits)
    with e1 show ?thesis by (simp add: emits_step)
  next
    case False
    with "1.prems" r obtain v where
      v: "vecsum opts (doubles_of (as_double w) (buffer s1))
           (NORMAL_READ_CHUNK_SIZE div sizeof_double) = Some v"
      and n: "normal_while w pass opts (psum + v)
           (emit (Vecsum (NORMAL_READ_CHUNK_SIZE div sizeof_double)) s1) = Some (r, s')"
      by (auto simp: normal_while.simps [of w pass opts psum s] split: option.splits)
    from "1.IH" [OF r [symmetric] _ _ _ v n] False
    have "emits P (emit (Vecsum (NORMAL_READ_CHUNK_SIZE div sizeof_double)) s1) s'" by auto
    with emits_step [OF e1 assms(3)] show ?thesis by (rule emits_trans)
  qed
qed

lemma normal_passes_emits:
  assumes "normal_passes w tdata opts pass s = Some (r, s')"
    and "P (Call HdfsRead)" "P (Call HdfsSeek)"
    and "\<And>n. P (Vecsum n)" "\<And>l. P (Stdout l)" "\<And>m. P (Stderr m)"
  shows "emits P s s'"
  using assms(1)
proof (induction w tdata opts pass s rule: normal_passes.induct)
  case (1 w tdata opts pass s)
  show ?case
  proof (cases "pass < passes opts")
    case False
    with "1.prems" show ?thesis
      by (simp add: normal_passes.simps [of w tdata opts pass] emits_refl)
  next
    case True
    with "1.prems" obtain ret s1 where
      l: "vecsum_normal_loop w pass tdata opts s = Some (ret, s1)"
      by (auto simp: normal_passes.simps [of w tdata opts pass] split: option.splits)
    then have e1: "emits P s s1"
      using normal_while_emits [of w pass opts 0 s ret s1 P] assms(2,4,5,6)
      by (simp add: vecsum_normal_loop_def)
    show ?thesis
    proof (cases "ret = 0")
      case False
      with "1.prems" True l have "s' = emit (Stderr (Normal_loop_pass_failed pass ret)) s1"
        by (auto simp: normal_passes.simps [of w tdata opts pass])
      with e1 assms(6) show ?thesis by (simp add: emits_step)
    next
      case z: True
      with "1.prems" True l
      have n: "normal_passes w tdata opts (pass + 1) (snd (hdfsSeek s1 0)) = Some (r, s')"
        by (simp add: normal_passes.simps [of w tdata opts pass])
      from "1.IH" [OF True l refl _ n] z
      have "emits P (snd (hdfsSeek s1 0)) s'" by simp
      moreover have "emits P s1 (snd (hdfsSeek s1 0))" using assms(3) by (rule hdfsSeek_emits)
      ultimately show ?thesis using e1 by (blast intro: emits_trans)
    qed
  qed
qed

lemma vecsum_libhdfs_emits:
  assumes "vecsum_libhdfs w tdata opts s = Some (r, s')"
    and "P (Call Malloc_buf)" "P (Call HdfsRead)" "P (Call HdfsSeek)"
    and "\<And>n. P (Vecsum n)" "\<And>l. P (Stdout l)" "\<And>m. P (Stderr m)"
  shows "emits P s s'"
proof -
  have np: "\<exists>es. out b = out a @ es \<and> list_all P es"
    if "normal_passes w tdata opts 0 a = Some (r, b)" for a b
    using normal_passes_emits [OF that assms(3-7)] by (simp add: emits_def)
  show ?thesis
    using assms
    by (auto simp: vecsum_libhdfs_def attempt_def emits_def emit_def
        split: option.splits dest!: np)
qed

lemma hadoopReadZero_emits:
  assumes "hadoopReadZero w s maxLength = (r, s')" "P (Call HadoopReadZero)"
  shows "emits P s s'"
  using assms
  by (auto simp: hadoopReadZero_def zero_copy_def emits_def emit_def Let_def
      split: list.splits transfer.splits if_splits)

lemma zcr_while_emits:
  assumes "zcr_while w pass opts psum s = Some (r, s')"
    and "P (Call HadoopReadZero)" "P (Call HadoopRzBufferFree)"
    and "\<And>n. P (Vecsum n)" "\<And>l. P (Stdout l)" "\<And>m. P (Stderr m)"
  shows "emits P s s'"
  using assms(1)
proof (induction w pass opts psum s rule: zcr_while.induct)
  case (1 w pass opts psum s)
  obtain rz s1 where h: "hadoopReadZero w s ZCR_READ_CHUNK_SIZE = (rz, s1)" by force
  then have e1: "emits P s s1" using assms(2) by (rule hadoopReadZero_emits)
  show ?case
  proof (cases "\<exists>rzbuf buf. rz = Some rzbuf \<and> ptr rzbuf = Some buf \<and>
      \<not> rz_length rzbuf < ZCR_READ_CHUNK_SIZE")
    case False
    with "1.prems" h obtain es where "out s' = out s1 @ es" "list_all P es"
      using assms(3,5,6)
      by (auto simp: zcr_while.simps [of w pass opts psum s] emit_def
          split: option.splits if_splits)
    then have "emits P s1 s'" by (auto simp: emits_def)
    with e1 show ?thesis by (rule emits_trans)
  next
    case True
    then obtain rzbuf buf where t: "rz = Some rzbuf" "ptr rzbuf = Some buf"
      "\<not> rz_length rzbuf < ZCR_READ_CHUNK_SIZE" by blast
    let ?s2 = "emit (Call HadoopRzBufferFree)
                 (emit (Vecsum (ZCR_READ_CHUNK_SIZE div sizeof_double)) s1)"
    from "1.prems" h t obtain v where
      v: "vecsum opts (doubles_of (as_double w) buf) (ZCR_READ_CHUNK_SIZE div sizeof_double) = Some v"
      and n: "zcr_while w pass opts (psum + v) ?s2 = Some (r, s')"
      by (auto simp: zcr_while.simps [of w pass opts psum s] split: option.splits)
    from "1.IH" [OF h [symmetric] _ t(2) t(3) v n] t(1)
    have "emits P ?s2 s'" by simp
    moreover have "emits P s ?s2" using e1 assms(3,4) by (intro emits_step)
    ultimately show ?thesis by (blast intro: emits_trans)
  qed
qed

lemma zcr_passes_emits:
  assumes "zcr_passes w tdata opts pass s = Some (r, s')"
    and "P (Call HadoopReadZero)" "P (Call HadoopRzBufferFree)" "P (Call HdfsSeek)"
    and "\<And>n. P (Vecsum n)" "\<And>l. P (Stdout l)" "\<And>m. P (Stderr m)"
  shows "emits P s s'"
  using assms(1)
proof (induction w tdata opts pass s rule: zcr_passes.induct)
  case (1 w tdata opts pass s)
  show ?case
  proof (cases "pass < passes opts")
    case False
    with "1.prems" show ?thesis
      by (simp add: zcr_passes.simps [of w tdata opts pass] emits_refl)
  next
    case True
    with "1.prems" obtain ret s1 where
      l: "vecsum_zcr_loop w pass tdata opts s = Some (ret, s1)"
      by (auto simp: zcr_passes.simps [of w tdata opts pass] split: option.splits)
    then have e1: "emits P s s1"
      using zcr_while_emits [of w pass opts 0 s ret s1 P] assms(2,3,5,6,7)
      by (simp add: vecsum_zcr_loop_def)
    show ?thesis
    proof (cases "ret = 0")
      case False
      with "1.prems" True l have "s' = emit (Stderr (Zcr_loop_pass_failed pass ret)) s1"
        by (auto simp: zcr_passes.simps [of w tdata opts pass])
      with e1 assms(7) show ?thesis by (simp add: emits_step)
    next
      case z: True
      with "1.prems" True l
      have n: "zcr_passes w tdata opts (pass + 1) (snd (hdfsSeek s1 0)) = Some (r, s')"
        by (simp add: zcr_passes.simps [of w tdata opts pass])
      from "1.IH" [OF True l refl _ n] z
      have "emits P (snd (hdfsSeek s1 0)) s'" by simp
      moreover have "emits P s1 (snd (hdfsSeek s1 0))" using assms(4) by (rule hdfsSeek_emits)
      ultimately show ?thesis using e1 by (blast intro: emits_trans)
    qed
  qed
qed

lemma vecsum_zcr_emits:
  assumes "vecsum_zcr w tdata opts s = Some (r, s')"
    and "P (Call HadoopRzOptionsAlloc)" "P (Call HadoopRzOptionsSetSkipChecksum)"
      "P (Call HadoopRzOptionsSetByteBufferPool)"
    and "P (Call HadoopReadZero)" "P (Call HadoopRzBufferFree)" "P (Call HdfsSeek)"
    and "\<And>n. P (Vecsum n)" "\<And>l. P (Stdout l)" "\<And>m. P (Stderr m)"
  shows "emits P s s'"
proof -
  have zp: "\<exists>es. out b = out a @ es \<and> list_all P es"
    if "zcr_passes w tdata opts 0 a = Some (r, b)" for a b
    using zcr_passes_emits [OF that assms(5-10)] by (simp add: emits_def)
  show ?thesis
    using assms
    by (auto simp: vecsum_zcr_def attempt_def emits_def emit_def
        split: option.splits dest!: zp)
qed

lemma main_done_emits:
  assumes "main_done w opts tdata watch ret s = Some (r, s')"
    and "P (Call Sys_stat)" "P (Call Clock_gettime_stop)"
    and "tdata \<noteq> None \<Longrightarrow> P (Call HdfsCloseFile) \<and> P (Call HdfsDisconnect)"
    and "\<And>l. P (Stdout l)" "\<And>m. P (Stderr m)"
  shows "emits P s s'" and "r = ret"
  using assms
  by (auto simp: main_done_def vecsum_length_def stopwatch_stop_def test_data_free_def
      attempt_def emits_def emit_def
      split: option.splits if_splits prod.splits)

section \<open>The local strategy and the endpoint\<close>

lemma vecsum_ignores_opts: "vecsum opts' buf n = vecsum opts buf n"
  by (simp add: vecsum_def)

lemma local_passes_ignores_endpoint:
  "local_passes (w\<lparr>getenv := g\<rparr>) (opts\<lparr>rpc_address := x\<rparr>) len pass s =
   local_passes w opts len pass s"
proof (induction w opts len pass s rule: local_passes.induct)
  case (1 w opts len pass s)
  show ?case
  proof (cases "pass < passes opts")
    case False
    then show ?thesis
      by (simp add: local_passes.simps [of _ _ len pass])
  next
    case True
    show ?thesis
    proof (cases "vecsum opts (doubles_of (as_double w) (file_bytes w))
                (int_of_size_t (len div sizeof_double))")
      case None
      with True show ?thesis
        by (simp add: local_passes.simps [of _ _ len pass]
            vecsum_ignores_opts [of "opts\<lparr>rpc_address := x\<rparr>" _ _ opts])
    next
      case (Some v)
      with True "1.IH" [OF True Some] show ?thesis
        by (simp add: local_passes.simps [of _ _ len pass]
            vecsum_ignores_opts [of "opts\<lparr>rpc_address := x\<rparr>" _ _ opts])
    qed
  qed
qed

lemma attempt_ignores_env: "attempt (w\<lparr>getenv := g\<rparr>) c s = attempt w c s"
  by (simp add: attempt_def)

lemma stopwatch_create_ignores_env:
  "stopwatch_create (w\<lparr>getenv := g\<rparr>) s = stopwatch_create w s"
  by (simp add: stopwatch_create_def attempt_ignores_env split: prod.split option.split)

lemma mmap_ignores_env: "mmap (w\<lparr>getenv := g\<rparr>) len s = mmap w len s"
  by (simp add: mmap_def attempt_ignores_env)

lemma vecsum_local_ignores_endpoint:
  "vecsum_local (w\<lparr>getenv := g\<rparr>) (opts\<lparr>rpc_address := x\<rparr>) s = vecsum_local w opts s"
  by (simp add: vecsum_local_def mmap_ignores_env attempt_ignores_env
      local_passes_ignores_endpoint Let_def split: prod.split option.split)

lemma stopwatch_stop_ignores_env:
  "stopwatch_stop (w\<lparr>getenv := g\<rparr>) n s = stopwatch_stop w n s"
  by (simp add: stopwatch_stop_def attempt_ignores_env split: prod.split option.split)

lemma vecsum_length_ignores_endpoint:
  "vecsum_length (w\<lparr>getenv := g\<rparr>) (opts\<lparr>rpc_address := x\<rparr>) tdata s =
   vecsum_length w opts tdata s"
  by (simp add: vecsum_length_def attempt_ignores_env split: prod.split option.split)

lemma main_done_ignores_endpoint:
  "main_done (w\<lparr>getenv := g\<rparr>) (Some (opts\<lparr>rpc_address := x\<rparr>)) tdata watch ret s =
   main_done w (Some opts) tdata watch ret s"
  by (simp add: main_done_def vecsum_length_ignores_endpoint stopwatch_stop_ignores_env
      split: prod.split option.split)

lemma main_done_ignores_env:
  "main_done (w\<lparr>getenv := g\<rparr>) None tdata watch ret s = main_done w None tdata watch ret s"
  by (simp add: main_done_def)

lemma main_run_local_ignores_endpoint:
  assumes "ty opts = VECSUM_LOCAL"
  shows "main_run (w\<lparr>getenv := g\<rparr>) (opts\<lparr>rpc_address := x\<rparr>) None s = main_run w opts None s"
  using assms
  by (simp add: main_run_def stopwatch_create_ignores_env vecsum_local_ignores_endpoint
      main_done_ignores_endpoint split: prod.split option.split bool.split)

lemma options_create_endpoint:
  "options_create (w\<lparr>getenv := (getenv w)(''VECSUM_RPC_ADDRESS'' := a)\<rparr>) s =
     (case options_create w s of
        (None, s') \<Rightarrow> (None, s')
      | (Some opts, s') \<Rightarrow>
          (Some (opts\<lparr>rpc_address := (case a of None \<Rightarrow> ''default'' | Some x \<Rightarrow> x)\<rparr>), s'))"
  by (simp add: options_create_def attempt_def split: option.splits)

lemma options_create_ty:
  assumes "options_create w s = (Some opts, s')" "getenv w ''VECSUM_TYPE'' = Some t"
  shows "ty opts = vecsum_type_of (parse_vecsum_type t)"
  using assms by (auto simp: options_create_def attempt_def split: option.splits if_splits)

lemma main_local_ignores_endpoint:
  assumes "getenv w ''VECSUM_TYPE'' = Some t" "parse_vecsum_type t = 2"
  shows "main (w\<lparr>getenv := (getenv w)(''VECSUM_RPC_ADDRESS'' := a)\<rparr>) = main w"
proof (cases "options_create w (init w)")
  case (Pair r s4)
  let ?w' = "w\<lparr>getenv := (getenv w)(''VECSUM_RPC_ADDRESS'' := a)\<rparr>"
  have i: "init ?w' = init w" by (simp add: init_def)
  show ?thesis
  proof (cases r)
    case None
    with Pair show ?thesis
      by (simp add: main_options options_create_endpoint i main_done_ignores_env)
  next
    case (Some opts)
    with Pair assms have "ty opts = VECSUM_LOCAL"
      using options_create_ty [of w "init w" opts s4 t] by (simp add: vecsum_type_of_def)
    with Pair Some show ?thesis
      by (simp add: main_options options_create_endpoint i main_run_local_ignores_endpoint)
  qed
qed

lemma main_local_emits:
  assumes "getenv w ''VECSUM_TYPE'' = Some t" "parse_vecsum_type t = 2"
    and "main w = Some (r, s')"
    and "P (Call Calloc_options)"
    and "P (Call Calloc_stopwatch)" "P (Call Clock_gettime_start)" "P (Call Getrusage)"
    and "P (Call Sys_open)" "P (Call Sys_fstat)" "P (Call Sys_mmap)" "P (Call Sys_munmap)"
      "P (Call Sys_close)" "P (Call Sys_stat)" "P (Call Clock_gettime_stop)"
    and "\<And>n. P (Vecsum n)" "\<And>l. P (Stdout l)" "\<And>m. P (Stderr m)"
  shows "list_all P (out s')"
proof -
  obtain ro s4 where o: "options_create w (init w) = (ro, s4)" by force
  have e4: "emits P (init w) s4" using o assms(4,17) by (rule options_create_emits)
  have d: "emits P a b" if "main_done w x None y z a = Some (r, b)" for a b x y z
    using that assms(13,14) _ assms(16,17) by (rule main_done_emits(1)) simp
  have "emits P s4 s'"
  proof (cases ro)
    case None
    with o assms(3) show ?thesis by (auto simp: main_options intro: d)
  next
    case (Some opts)
    with o assms(1,2) have l: "ty opts = VECSUM_LOCAL"
      using options_create_ty [of w "init w" opts s4 t] by (simp add: vecsum_type_of_def)
    with o Some assms(3) have m: "main_run w opts None s4 = Some (r, s')"
      by (simp add: main_options)
    obtain b s5 where sw: "stopwatch_create w s4 = (b, s5)" by force
    have e5: "emits P s4 s5" using sw assms(5,6,7,17) by (rule stopwatch_create_emits)
    show ?thesis
    proof (cases b)
      case False
      with m sw have "main_done w (Some opts) None False 1 s5 = Some (r, s')"
        by (simp add: main_run_def)
      with e5 show ?thesis by (blast intro: d emits_trans)
    next
      case True
      with m sw l obtain ret s6 where v: "vecsum_local w opts s5 = Some (ret, s6)"
        by (auto simp: main_run_def split: option.splits)
      have e6: "emits P s5 s6" using v assms(8-12,15-17) by (rule vecsum_local_emits)
      let ?s7 = "if ret \<noteq> 0 then emit (Stderr (Vecsum_failed ret)) s6 else s6"
      have "emits P s6 ?s7" using assms(17) by (simp add: emits_refl emits_emit)
      moreover from m sw l True v
      have "main_done w (Some opts) None True ret ?s7 = Some (r, s')"
        by (auto simp: main_run_def split: if_splits)
      ultimately obtain s7 where "emits P s6 s7"
        "main_done w (Some opts) None True ret s7 = Some (r, s')" by blast
      with e5 e6 show ?thesis by (blast intro: d emits_trans)
    qed
  qed
  with e4 have "emits P (init w) s'" by (rule emits_trans)
  then show ?thesis by (simp add: emits_def init_def)
qed

text \<open>
  C10. When \<open>VECSUM_TYPE\<close> names the local strategy, the run does not depend on
  \<open>VECSUM_RPC_ADDRESS\<close>: with the variable set to any value or unset, \<open>main\<close> returns the
  same status with the same calls and messages (the same sums). And no run of the
  local strategy calls libhdfs or names a name node.
\<close>

theorem local_run_ignores_endpoint:
  assumes "getenv w ''VECSUM_TYPE'' = Some t" "parse_vecsum_type t = 2"
  shows "main (w\<lparr>getenv := (getenv w)(''VECSUM_RPC_ADDRESS'' := a)\<rparr>) = main w \<and>
         (\<forall>r s'. main w = Some (r, s') \<longrightarrow> list_all (\<lambda>e. \<not> remote e) (out s'))"
proof (intro conjI allI impI)
  show "main (w\<lparr>getenv := (getenv w)(''VECSUM_RPC_ADDRESS'' := a)\<rparr>) = main w"
    using assms by (rule main_local_ignores_endpoint)
next
  fix r s' assume "main w = Some (r, s')"
  with assms show "list_all (\<lambda>e. \<not> remote e) (out s')"
    by (rule main_local_emits) simp_all
qed

lemma local_one_pass:
  assumes "\<forall>c. fault w c = None"
    and "options_create w (init w) = (Some opts, s0)"
    and "ty opts = VECSUM_LOCAL" and "passes opts = 1"
    and "length (file_bytes w) = 8388608"
  shows "main w = Some (0, s0\<lparr>out := out s0 @
     [Call Calloc_stopwatch, Call Clock_gettime_start, Call Getrusage,
      Call Sys_open, Call Sys_fstat, Call Sys_mmap, Vecsum 1048576,
      Stdout (Finished_local_pass 0 (sum_list (doubles_of (as_double w) (file_bytes w)))),
      Call Sys_munmap, Call Sys_close, Call Sys_stat, Call Clock_gettime_stop,
      Stdout (Stopwatch_took 8388608)]\<rparr>)"
proof -
  have n: "int_of_size_t (8388608 div sizeof_double) = 1048576"
    by (simp add: int_of_size_t_def sizeof_double_def)
  have l: "length (doubles_of (as_double w) (file_bytes w)) = 1048576"
    using assms(5) by (simp add: length_doubles_of)
  have "vecsum opts (doubles_of (as_double w) (file_bytes w)) 1048576 =
      Some (sum_list (take (nat 1048576) (doubles_of (as_double w) (file_bytes w))))"
    by (rule vecsum_sum_list) (simp_all add: l INT_MAX_def DOUBLES_PER_LOOP_ITER_def)
  then have v: "vecsum opts (doubles_of (as_double w) (file_bytes w)) 1048576 =
      Some (sum_list (doubles_of (as_double w) (file_bytes w)))"
    using l by simp
  have lp: "local_passes w opts 8388608 0 s =
      Some (emit (Stdout (Finished_local_pass 0 (sum_list (doubles_of (as_double w) (file_bytes w)))))
              (emit (Vecsum 1048576) s))" for s
    using assms(4) v n
    by (simp add: local_passes.simps [of w opts 8388608 0] local_passes.simps [of w opts 8388608 1])
  show ?thesis
    using assms(1,2,3,4,5)
    by (simp add: main_options main_run_def stopwatch_create_ok [OF assms(1)] vecsum_local_def
        attempt_ok mmap_def lp main_done_def vecsum_length_def stopwatch_stop_def emit_def
        VECSUM_CHUNK_SIZE_def)
qed

theorem local_run_ignores_endpoint_witness:
  "getenv (calm_world (env_of ''1'' ''local'') (replicate 8388608 0) [] []) ''VECSUM_TYPE'' = Some ''local'' \<and>
   parse_vecsum_type ''local'' = 2 \<and>
   main ((calm_world (env_of ''1'' ''local'') (replicate 8388608 0) [] [])
          \<lparr>getenv := (getenv (calm_world (env_of ''1'' ''local'') (replicate 8388608 0) [] []))
             (''VECSUM_RPC_ADDRESS'' := Some ''namenode:8020'')\<rparr>) =
     main (calm_world (env_of ''1'' ''local'') (replicate 8388608 0) [] []) \<and>
   main (calm_world (env_of ''1'' ''local'') (replicate 8388608 0) [] []) =
     Some (0, \<lparr>pos = 0, script = [], seeks = [], errno = 0, heap = (\<lambda>a. 0),
       out = [Call Calloc_options, Call Calloc_stopwatch, Call Clock_gettime_start, Call Getrusage,
         Call Sys_open, Call Sys_fstat, Call Sys_mmap, Vecsum 1048576,
         Stdout (Finished_local_pass 0 1048576),
         Call Sys_munmap, Call Sys_close, Call Sys_stat, Call Clock_gettime_stop,
         Stdout (Stopwatch_took 8388608)]\<rparr>) \<and>
   list_all (\<lambda>e. \<not> remote e)
     [Call Calloc_options, Call Calloc_stopwatch, Call Clock_gettime_start, Call Getrusage,
      Call Sys_open, Call Sys_fstat, Call Sys_mmap, Vecsum 1048576,
      Stdout (Finished_local_pass 0 1048576),
      Call Sys_munmap, Call Sys_close, Call Sys_stat, Call Clock_gettime_stop,
      Stdout (Stopwatch_took 8388608)]"
proof -
  let ?w = "calm_world (env_of ''1'' ''local'') (replicate 8388608 0) [] []"
  let ?o = "\<lparr>path = ''/f'', passes = 1, ty = VECSUM_LOCAL, rpc_address = ''default''\<rparr>"
  have t: "getenv ?w ''VECSUM_TYPE'' = Some ''local''" by (simp add: calm_world_def env_of_def)
  have f: "\<forall>c. fault ?w c = None" by (simp add: calm_world_def)
  have o: "options_create ?w (init ?w) = (Some ?o, emit (Call Calloc_options) (init ?w))"
    by (simp add: options_create_calm atoi_1 parse_vecsum_type_values vecsum_type_of_def)
  have l: "length (file_bytes ?w) = 8388608" by (simp add: calm_world_def)
  have d: "doubles_of (as_double ?w) (file_bytes ?w) = replicate 1048576 1"
    using doubles_of_replicate [of "\<lambda>b. 1" 1048576 0] by (simp add: calm_world_def)
  have m: "main ?w =
     Some (0, \<lparr>pos = 0, script = [], seeks = [], errno = 0, heap = (\<lambda>a. 0),
       out = [Call Calloc_options, Call Calloc_stopwatch, Call Clock_gettime_start, Call Getrusage,
         Call Sys_open, Call Sys_fstat, Call Sys_mmap, Vecsum 1048576,
         Stdout (Finished_local_pass 0 1048576),
         Call Sys_munmap, Call Sys_close, Call Sys_stat, Call Clock_gettime_stop,
         Stdout (Stopwatch_took 8388608)]\<rparr>)"
    using local_one_pass [OF f o _ _ l]
    by (simp add: d sum_list_replicate) (simp add: init_def emit_def calm_world_def)
  show ?thesis
    using local_run_ignores_endpoint [OF t parse_vecsum_type_values(3), of "Some ''namenode:8020''"] m t
    by (simp add: parse_vecsum_type_values)
qed

section \<open>The stopwatch and the order of a run\<close>

lemma precedes_append:
  "list_all (\<lambda>e. \<not> Q e) xs \<Longrightarrow> list_all (\<lambda>e. \<not> P e) ys \<Longrightarrow> precedes P Q (xs @ ys)"
proof (induction xs)
  case Nil
  then show ?case by (induction ys) simp_all
next
  case (Cons x xs)
  then show ?case by simp
qed

lemma guarded_by_none: "list_all (\<lambda>e. \<not> P e) xs \<Longrightarrow> guarded_by Q P xs"
  by (induction xs) simp_all

lemma guarded_by_after: "list_all (\<lambda>e. \<not> P e) xs \<Longrightarrow> Q q \<Longrightarrow> guarded_by Q P (xs @ q # ys)"
  by (induction xs) simp_all

lemma stopwatch_create_True:
  assumes "stopwatch_create w s = (True, s1)"
  shows "out s1 = out s @ [Call Calloc_stopwatch, Call Clock_gettime_start, Call Getrusage]"
  using assms
  by (auto simp: stopwatch_create_def attempt_def emit_def split: option.splits)

lemma main_run_shape:
  assumes "main_run w opts tdata s = Some (r, s')"
  shows "(\<exists>B D. out s' = out s @ B @ D \<and> list_all watch_failing B \<and> list_all at_done D) \<or>
         (\<exists>R D. out s' = out s @ [Call Calloc_stopwatch, Call Clock_gettime_start, Call Getrusage]
             @ R @ D \<and> list_all in_run R \<and> list_all at_done D)"
proof -
  obtain b s1 where sw: "stopwatch_create w s = (b, s1)" by force
  have d: "emits at_done a c" if "main_done w x tdata y z a = Some (r, c)" for a c x y z
    using that by (rule main_done_emits(1)) simp_all
  show ?thesis
  proof (cases b)
    case False
    have "emits watch_failing s s1" using sw by (rule stopwatch_create_emits) simp_all
    moreover from assms sw False have "emits at_done s1 s'"
      by (auto simp: main_run_def intro: d)
    ultimately show ?thesis by (auto simp: emits_def)
  next
    case True
    with sw have o1: "out s1 = out s @ [Call Calloc_stopwatch, Call Clock_gettime_start, Call Getrusage]"
      by (simp add: stopwatch_create_True)
    from assms sw True obtain ret s2 where
      v: "(case ty opts of
            VECSUM_LIBHDFS \<Rightarrow> (case tdata of None \<Rightarrow> None | Some td \<Rightarrow> vecsum_libhdfs w td opts s1)
          | VECSUM_ZCR \<Rightarrow> (case tdata of None \<Rightarrow> None | Some td \<Rightarrow> vecsum_zcr w td opts s1)
          | VECSUM_LOCAL \<Rightarrow> vecsum_local w opts s1) = Some (ret, s2)"
      by (auto simp: main_run_def split: option.splits)
    have e2: "emits in_run s1 s2"
    proof (cases "ty opts")
      case VECSUM_LIBHDFS
      with v obtain td where "vecsum_libhdfs w td opts s1 = Some (ret, s2)"
        by (auto split: option.splits)
      then show ?thesis by (rule vecsum_libhdfs_emits) simp_all
    next
      case VECSUM_ZCR
      with v obtain td where "vecsum_zcr w td opts s1 = Some (ret, s2)"
        by (auto split: option.splits)
      then show ?thesis by (rule vecsum_zcr_emits) simp_all
    next
      case VECSUM_LOCAL
      with v have "vecsum_local w opts s1 = Some (ret, s2)" by simp
      then show ?thesis by (rule vecsum_local_emits) simp_all
    qed
    let ?s3 = "if ret \<noteq> 0 then emit (Stderr (Vecsum_failed ret)) s2 else s2"
    have e3: "emits in_run s2 ?s3" by (simp add: emits_refl emits_emit)
    from assms sw True v have "main_done w (Some opts) tdata True ret ?s3 = Some (r, s')"
      by (auto simp: main_run_def split: if_splits)
    then have "emits at_done ?s3 s'" by (rule d)
    moreover have "emits in_run s1 ?s3" using e2 e3 by (rule emits_trans)
    ultimately show ?thesis using o1 by (auto simp: emits_def)
  qed
qed

lemma main_shape:
  assumes "main w = Some (r, s')"
  shows "(\<exists>A B D. out s' = A @ B @ D \<and> list_all before_watch A \<and> list_all watch_failing B \<and>
            list_all at_done D) \<or>
         (\<exists>A R D. out s' = A @ [Call Calloc_stopwatch, Call Clock_gettime_start, Call Getrusage]
             @ R @ D \<and> list_all before_watch A \<and> list_all in_run R \<and> list_all at_done D)"
proof -
  obtain ro s4 where o: "options_create w (init w) = (ro, s4)" by force
  have "emits before_watch (init w) s4" using o by (rule options_create_emits) simp_all
  then have a4: "list_all before_watch (out s4)" by (simp add: emits_def init_def)
  have d: "emits at_done a c" if "main_done w x None y z a = Some (r, c)" for a c x y z
    using that by (rule main_done_emits(1)) simp_all
  have run: ?thesis if "main_run w opts tdata s = Some (r, s')" "list_all before_watch (out s)"
    for opts tdata s
    using main_run_shape [OF that(1)] that(2) by (elim disjE exE conjE) blast+
  show ?thesis
  proof (cases ro)
    case None
    with o assms have "emits at_done s4 s'" by (auto simp: main_options intro: d)
    then obtain D where "out s' = out s4 @ [] @ D" "list_all at_done D" by (auto simp: emits_def)
    with a4 show ?thesis by (intro disjI1 exI [of _ "out s4"] exI [of _ "[]"] exI [of _ D]) simp
  next
    case (Some opts)
    show ?thesis
    proof (cases "ty opts = VECSUM_LOCAL")
      case True
      with o Some assms have "main_run w opts None s4 = Some (r, s')" by (simp add: main_options)
      then show ?thesis using a4 by (rule run)
    next
      case False
      obtain rt s5 where t: "test_data_create w opts s4 = (rt, s5)" by force
      have "emits before_watch s4 s5" using t by (rule test_data_create_emits) simp_all
      with a4 have a5: "list_all before_watch (out s5)" by (auto simp: emits_def)
      show ?thesis
      proof (cases rt)
        case None
        with o Some False t assms have "emits at_done s5 s'" by (auto simp: main_options intro: d)
        then obtain D where "out s' = out s5 @ [] @ D" "list_all at_done D" by (auto simp: emits_def)
        with a5 show ?thesis by (intro disjI1 exI [of _ "out s5"] exI [of _ "[]"] exI [of _ D]) simp
      next
        case (Some td)
        with o \<open>ro = Some opts\<close> False t assms have "main_run w opts (Some td) s5 = Some (r, s')"
          by (simp add: main_options)
        then show ?thesis using a5 by (rule run)
      qed
    qed
  qed
qed

lemma before_watch_not:
  "before_watch e \<Longrightarrow> \<not> started e \<and> \<not> mapping_setup e \<and> \<not> is_data e \<and> \<not> stopped e"
  by (cases e rule: before_watch.cases) (auto simp: started_def stopped_def)

lemma watch_failing_not:
  "watch_failing e \<Longrightarrow> \<not> session_setup e \<and> \<not> mapping_setup e \<and> \<not> is_data e \<and> \<not> stopped e"
  by (cases e rule: watch_failing.cases) (auto simp: stopped_def)

lemma in_run_not: "in_run e \<Longrightarrow> \<not> session_setup e \<and> \<not> started e \<and> \<not> stopped e"
  by (cases e rule: session_setup.cases) (auto simp: started_def stopped_def)

lemma at_done_not:
  "at_done e \<Longrightarrow> \<not> session_setup e \<and> \<not> mapping_setup e \<and> \<not> is_data e \<and> \<not> started e"
  by (cases e rule: at_done.cases) (auto simp: started_def)

lemma list_all_imp: "list_all P xs \<Longrightarrow> (\<And>e. P e \<Longrightarrow> Q e) \<Longrightarrow> list_all Q xs"
  by (simp add: list_all_iff)

text \<open>
  C6, as amended. In every run of \<open>main\<close>: the setup of the session (the options, the
  connection, the size and alignment of the file, its opening) is over when the
  stopwatch takes its start; the setup of the local strategy (open, fstat, mmap)
  happens only after the start; no data is read or reduced before the start, and none
  after the stopwatch takes its stop.
\<close>

theorem stopwatch_brackets_every_run:
  assumes "main w = Some (r, s')"
  shows "stopwatch_brackets_passes (out s')"
proof -
  from main_shape [OF assms] show ?thesis
  proof (elim disjE exE conjE)
    fix A B D
    assume o: "out s' = A @ B @ D"
      and A: "list_all before_watch A" and B: "list_all watch_failing B" and D: "list_all at_done D"
    have nA: "list_all (\<lambda>e. \<not> started e) A"
      using A by (rule list_all_imp) (simp add: before_watch_not)
    have nS: "list_all (\<lambda>e. \<not> session_setup e) (B @ D)"
      using list_all_imp [OF B, of "\<lambda>e. \<not> session_setup e"]
        list_all_imp [OF D, of "\<lambda>e. \<not> session_setup e"]
      by (simp add: watch_failing_not at_done_not)
    have nM: "list_all (\<lambda>e. \<not> mapping_setup e) (A @ B @ D)"
      using list_all_imp [OF A, of "\<lambda>e. \<not> mapping_setup e"]
        list_all_imp [OF B, of "\<lambda>e. \<not> mapping_setup e"]
        list_all_imp [OF D, of "\<lambda>e. \<not> mapping_setup e"]
      by (simp add: before_watch_not watch_failing_not at_done_not)
    have nD: "list_all (\<lambda>e. \<not> is_data e) (A @ B @ D)"
      using list_all_imp [OF A, of "\<lambda>e. \<not> is_data e"]
        list_all_imp [OF B, of "\<lambda>e. \<not> is_data e"]
        list_all_imp [OF D, of "\<lambda>e. \<not> is_data e"]
      by (simp add: before_watch_not watch_failing_not at_done_not)
    have "precedes session_setup started (A @ (B @ D))" using nA nS by (rule precedes_append)
    moreover have "precedes is_data stopped ([] @ (A @ B @ D))"
      using _ nD by (rule precedes_append) simp
    ultimately show ?thesis
      using nM nD by (simp add: stopwatch_brackets_passes_def o guarded_by_none)
  next
    fix A R D
    let ?c = "Call Calloc_stopwatch" and ?g = "Call Getrusage"
    assume o: "out s' = A @ [?c, Call Clock_gettime_start, ?g] @ R @ D"
      and A: "list_all before_watch A" and R: "list_all in_run R" and D: "list_all at_done D"
    have nA: "list_all (\<lambda>e. \<not> started e) A"
      using A by (rule list_all_imp) (simp add: before_watch_not)
    have nS: "list_all (\<lambda>e. \<not> session_setup e) ([?c, Call Clock_gettime_start, ?g] @ R @ D)"
      using list_all_imp [OF R, of "\<lambda>e. \<not> session_setup e"]
        list_all_imp [OF D, of "\<lambda>e. \<not> session_setup e"]
      by (simp add: in_run_not at_done_not)
    have mA: "list_all (\<lambda>e. \<not> mapping_setup e) (A @ [?c])"
      using list_all_imp [OF A, of "\<lambda>e. \<not> mapping_setup e"] by (simp add: before_watch_not)
    have dA: "list_all (\<lambda>e. \<not> is_data e) (A @ [?c])"
      using list_all_imp [OF A, of "\<lambda>e. \<not> is_data e"] by (simp add: before_watch_not)
    have tA: "list_all (\<lambda>e. \<not> stopped e) A"
      using A by (rule list_all_imp) (simp add: before_watch_not)
    have tR: "list_all (\<lambda>e. \<not> stopped e) R"
      using R by (rule list_all_imp) (simp add: in_run_not)
    have nT: "list_all (\<lambda>e. \<not> stopped e) (A @ [?c, Call Clock_gettime_start, ?g] @ R)"
      using tA tR by (simp add: stopped_def)
    have dD: "list_all (\<lambda>e. \<not> is_data e) D"
      using D by (rule list_all_imp) (simp add: at_done_not)
    have st: "started (Call Clock_gettime_start)" by (simp add: started_def)
    have "precedes session_setup started (A @ ([?c, Call Clock_gettime_start, ?g] @ R @ D))"
      using nA nS by (rule precedes_append)
    moreover have "guarded_by started mapping_setup
        ((A @ [?c]) @ Call Clock_gettime_start # ([?g] @ R @ D))"
      using mA st by (rule guarded_by_after)
    moreover have "guarded_by started is_data
        ((A @ [?c]) @ Call Clock_gettime_start # ([?g] @ R @ D))"
      using dA st by (rule guarded_by_after)
    moreover have "precedes is_data stopped ((A @ [?c, Call Clock_gettime_start, ?g] @ R) @ D)"
      using nT dD by (rule precedes_append)
    ultimately show ?thesis
      by (simp add: stopwatch_brackets_passes_def o)
  qed
qed

lemma calm_local_run:
  "main (calm_world (env_of ''1'' ''local'') (replicate 8388608 0) [] []) =
     Some (0, \<lparr>pos = 0, script = [], seeks = [], errno = 0, heap = (\<lambda>a. 0),
       out = [Call Calloc_options, Call Calloc_stopwatch, Call Clock_gettime_start, Call Getrusage,
         Call Sys_open, Call Sys_fstat, Call Sys_mmap, Vecsum 1048576,
         Stdout (Finished_local_pass 0 1048576),
         Call Sys_munmap, Call Sys_close, Call Sys_stat, Call Clock_gettime_stop,
         Stdout (Stopwatch_took 8388608)]\<rparr>)"
proof -
  let ?w = "calm_world (env_of ''1'' ''local'') (replicate 8388608 0) [] []"
  let ?o = "\<lparr>path = ''/f'', passes = 1, ty = VECSUM_LOCAL, rpc_address = ''default''\<rparr>"
  have f: "\<forall>c. fault ?w c = None" by (simp add: calm_world_def)
  have o: "options_create ?w (init ?w) = (Some ?o, emit (Call Calloc_options) (init ?w))"
    by (simp add: options_create_calm atoi_1 parse_vecsum_type_values vecsum_type_of_def)
  have l: "length (file_bytes ?w) = 8388608" by (simp add: calm_world_def)
  have d: "doubles_of (as_double ?w) (file_bytes ?w) = replicate 1048576 1"
    using doubles_of_replicate [of "\<lambda>b. 1" 1048576 0] by (simp add: calm_world_def)
  show ?thesis
    using local_one_pass [OF f o _ _ l]
    by (simp add: d sum_list_replicate) (simp add: init_def emit_def calm_world_def)
qed

theorem stopwatch_brackets_every_run_witness:
  "main (calm_world (env_of ''1'' ''local'') (replicate 8388608 0) [] []) =
     Some (0, \<lparr>pos = 0, script = [], seeks = [], errno = 0, heap = (\<lambda>a. 0),
       out = [Call Calloc_options, Call Calloc_stopwatch, Call Clock_gettime_start, Call Getrusage,
         Call Sys_open, Call Sys_fstat, Call Sys_mmap, Vecsum 1048576,
         Stdout (Finished_local_pass 0 1048576),
         Call Sys_munmap, Call Sys_close, Call Sys_stat, Call Clock_gettime_stop,
         Stdout (Stopwatch_took 8388608)]\<rparr>) \<and>
   stopwatch_brackets_passes
     [Call Calloc_options, Call Calloc_stopwatch, Call Clock_gettime_start, Call Getrusage,
      Call Sys_open, Call Sys_fstat, Call Sys_mmap, Vecsum 1048576,
      Stdout (Finished_local_pass 0 1048576),
      Call Sys_munmap, Call Sys_close, Call Sys_stat, Call Clock_gettime_stop,
      Stdout (Stopwatch_took 8388608)]"
  using stopwatch_brackets_every_run [OF calm_local_run] calm_local_run by simp

text \<open>
  C6, as stated, fails for the local strategy: in its run on a file of one chunk, the
  file is opened, measured and mapped after the stopwatch has taken its start.
\<close>

theorem stopwatch_includes_mapping_setup:
  "main (calm_world (env_of ''1'' ''local'') (replicate 8388608 0) [] []) =
     Some (0, \<lparr>pos = 0, script = [], seeks = [], errno = 0, heap = (\<lambda>a. 0),
       out = [Call Calloc_options, Call Calloc_stopwatch, Call Clock_gettime_start, Call Getrusage,
         Call Sys_open, Call Sys_fstat, Call Sys_mmap, Vecsum 1048576,
         Stdout (Finished_local_pass 0 1048576),
         Call Sys_munmap, Call Sys_close, Call Sys_stat, Call Clock_gettime_stop,
         Stdout (Stopwatch_took 8388608)]\<rparr>) \<and>
   \<not> stopwatch_excludes_setup
     [Call Calloc_options, Call Calloc_stopwatch, Call Clock_gettime_start, Call Getrusage,
      Call Sys_open, Call Sys_fstat, Call Sys_mmap, Vecsum 1048576,
      Stdout (Finished_local_pass 0 1048576),
      Call Sys_munmap, Call Sys_close, Call Sys_stat, Call Clock_gettime_stop,
      Stdout (Stopwatch_took 8388608)]"
  using calm_local_run by (simp add: stopwatch_excludes_setup_def started_def)

section \<open>An interrupted read\<close>

lemma hdfsReadFully_interrupted:
  assumes "script s = Fail EINTR # r" "benign r" "0 < len"
  shows "\<exists>s' j. hdfsReadFully w s buf len = (int (avail w s (len + 1)) - 1, s') \<and>
     pos s' = pos s + avail w s (len + 1) \<and>
     heap s' = store (heap s) (buf - 1) (take (avail w s (len + 1)) (drop (pos s) (file_bytes w))) \<and>
     benign (script s') \<and> seeks s' = seeks s \<and> out s' = out s @ replicate j (Call HdfsRead)"
proof -
  let ?s1 = "s\<lparr>out := out s @ [Call HdfsRead], script := r, errno := EINTR\<rparr>"
  have r: "hdfsRead w s buf len = (- 1, ?s1)"
    using assms(1) by (simp add: hdfsRead_def emit_def)
  have step: "hdfsReadFully w s buf len = hdfsReadFully_loop w ?s1 (buf - 1) (len + 1) (- 1)"
    using assms(3) r by (simp add: hdfsReadFully_def hdfsReadFully_loop.simps [of w s])
  have b: "benign (script ?s1)" "0 \<le> len + 1" using assms(2,3) by simp_all
  from hdfsReadFully_loop_benign [OF b, of w "buf - 1" "- 1"]
  obtain s' j where h: "hdfsReadFully_loop w ?s1 (buf - 1) (len + 1) (- 1) =
        (- 1 + int (avail w ?s1 (len + 1)), s')"
      "pos s' = pos ?s1 + avail w ?s1 (len + 1)"
      "heap s' = store (heap ?s1) (buf - 1) (take (avail w ?s1 (len + 1)) (drop (pos ?s1) (file_bytes w)))"
      "benign (script s')" "seeks s' = seeks ?s1"
      "out s' = out ?s1 @ replicate j (Call HdfsRead)"
    by blast
  have a: "avail w ?s1 (len + 1) = avail w s (len + 1)" by (simp add: avail_def)
  have "out s' = out s @ replicate (Suc j) (Call HdfsRead)" using h(6) by simp
  with step h(1-5) show ?thesis unfolding a by (intro exI [of _ s'] exI [of _ "Suc j"]) simp
qed

lemma stdout_of_replicate_Call: "stdout_of (replicate j (Call c)) = []"
  by (induction j) simp_all

lemma length_buffer: "length (buffer s) = nat NORMAL_READ_CHUNK_SIZE"
  by (simp add: buffer_def)

lemma streaming_interrupted_once:
  assumes "\<forall>c. fault w c = None"
    and "options_create w (init w) = (Some opts, s0)"
    and "ty opts = VECSUM_LIBHDFS" and "passes opts = 1"
    and "length (file_bytes w) = 16777216"
    and "read_script w = [Fail EINTR]"
  shows "\<exists>s'. main w = Some (EINVAL, s') \<and> stdout_of (out s') = [] \<and>
     Stderr (HdfsRead_partial_read 8388607) \<in> set (out s')"
proof -
  let ?td = "\<lparr>fs = True, hfile = True, tlength = int (length (file_bytes w))\<rparr>"
  let ?s6 = "s0\<lparr>out := out s0 @ [Call Calloc_test_data, Call HdfsNewBuilder,
         SetNameNode (rpc_address opts), Call HdfsBuilderConnect, Call HdfsGetPathInfo,
         Call HdfsOpenFile, Call Calloc_stopwatch, Call Clock_gettime_start, Call Getrusage]\<rparr>"
  let ?s7 = "emit (Call Malloc_buf) ?s6"
  let ?n = "NORMAL_READ_CHUNK_SIZE div sizeof_double"
  have s0: "s0 = emit (Call Calloc_options) (init w)"
    using assms(2) by (rule options_create_Some)
  have ne: "file_bytes w \<noteq> []" using assms(5) by auto
  have al: "int (length (file_bytes w)) mod VECSUM_CHUNK_SIZE = 0"
    using assms(5) by (simp add: VECSUM_CHUNK_SIZE_def)
  have sc: "script ?s7 = Fail EINTR # []" "pos ?s7 = 0" "stdout_of (out ?s7) = []"
    using assms(6) by (simp_all add: s0 emit_def init_def)
  have pl: "0 < NORMAL_READ_CHUNK_SIZE" by (simp add: NORMAL_READ_CHUNK_SIZE_def)
  from hdfsReadFully_interrupted [OF sc(1) _ pl, of w 0]
  obtain s8 j where h: "hdfsReadFully w ?s7 0 NORMAL_READ_CHUNK_SIZE =
        (int (avail w ?s7 (NORMAL_READ_CHUNK_SIZE + 1)) - 1, s8)"
      "pos s8 = pos ?s7 + avail w ?s7 (NORMAL_READ_CHUNK_SIZE + 1)"
      "benign (script s8)" "out s8 = out ?s7 @ replicate j (Call HdfsRead)"
    by (auto simp: benign_def)
  have a7: "avail w ?s7 (NORMAL_READ_CHUNK_SIZE + 1) = 8388609"
    using assms(5) sc(2) by (simp add: avail_def NORMAL_READ_CHUNK_SIZE_def)
  have r8: "hdfsReadFully w ?s7 0 NORMAL_READ_CHUNK_SIZE = (NORMAL_READ_CHUNK_SIZE, s8)"
    and p8: "pos s8 = 8388609"
    using h(1,2) sc(2) unfolding a7 by (simp_all add: NORMAL_READ_CHUNK_SIZE_def)
  obtain v where v: "vecsum opts (doubles_of (as_double w) (buffer s8)) ?n = Some v"
    using vecsum_chunk [OF length_buffer] by blast
  let ?s9 = "emit (Vecsum ?n) s8"
  have step1: "normal_while w 0 opts 0 ?s7 = normal_while w 0 opts (0 + v) ?s9"
    using r8 v by (subst normal_while.simps) (simp add: NORMAL_READ_CHUNK_SIZE_def)
  have b9: "benign (script ?s9)" "0 \<le> NORMAL_READ_CHUNK_SIZE"
    using h(3) by (simp_all add: emit_def NORMAL_READ_CHUNK_SIZE_def)
  from hdfsReadFully_loop_benign [OF b9, of w 0 0]
  obtain s10 i where g: "hdfsReadFully_loop w ?s9 0 NORMAL_READ_CHUNK_SIZE 0 =
        (0 + int (avail w ?s9 NORMAL_READ_CHUNK_SIZE), s10)"
      "out s10 = out ?s9 @ replicate i (Call HdfsRead)"
    by blast
  have a9: "avail w ?s9 NORMAL_READ_CHUNK_SIZE = 8388607"
    using assms(5) p8 by (simp add: avail_def emit_def NORMAL_READ_CHUNK_SIZE_def)
  have r10: "hdfsReadFully w ?s9 0 NORMAL_READ_CHUNK_SIZE = (8388607, s10)"
    using g(1) unfolding a9 by (simp add: hdfsReadFully_def)
  let ?s11 = "emit (Stderr (HdfsRead_partial_read 8388607)) s10"
  have step2: "normal_while w 0 opts (0 + v) ?s9 = Some (EINVAL, ?s11)"
    using r10 by (subst normal_while.simps) (simp add: NORMAL_READ_CHUNK_SIZE_def)
  have o11: "out ?s11 = out ?s7 @ replicate j (Call HdfsRead) @ [Vecsum ?n]
      @ replicate i (Call HdfsRead) @ [Stderr (HdfsRead_partial_read 8388607)]"
    using g(2) h(4) by (simp add: emit_def)
  let ?s12 = "emit (Stderr (Normal_loop_pass_failed 0 EINVAL)) ?s11"
  have np: "normal_passes w ?td opts 0 ?s7 = Some (EINVAL, ?s12)"
    using assms(4) step1 step2
    by (simp add: normal_passes.simps [of w ?td opts 0] vecsum_normal_loop_def EINVAL_def)
  have run: "vecsum_libhdfs w ?td opts ?s6 = Some (EINVAL, ?s12)"
    using np assms(1) by (simp add: vecsum_libhdfs_def attempt_ok)
  let ?s' = "test_data_free ?td (emit (Stderr (Vecsum_failed EINVAL)) ?s12)"
  have m: "main w = Some (EINVAL, ?s')"
    using assms(1,2,3) run
    by (simp add: main_options test_data_create_ok [OF assms(1) ne al]
        main_run_def stopwatch_create_ok [OF assms(1)] main_done_def EINVAL_def)
  have "out ?s' = out ?s11 @ [Stderr (Normal_loop_pass_failed 0 EINVAL),
      Stderr (Vecsum_failed EINVAL), Call HdfsCloseFile, Call HdfsDisconnect]"
    by (simp add: test_data_free_def emit_def)
  then have "stdout_of (out ?s') = []" "Stderr (HdfsRead_partial_read 8388607) \<in> set (out ?s')"
    using sc(3) unfolding o11 by (simp_all add: stdout_of_append stdout_of_replicate_Call)
  with m show ?thesis by blast
qed

text \<open>
  C4. \<open>hdfsReadFully\<close> asked for 4 bytes of a file of 8, when the first \<open>hdfsRead\<close> is
  interrupted (\<open>EINTR\<close>) and the second transfers all it is asked for: the interrupted
  call's -1 is added to the counters like a byte count, so the second call is asked
  for 5 bytes one address before the buffer; \<open>hdfsReadFully\<close> returns 4 with 5 bytes
  taken from the file, the first of them stored before the buffer and the buffer
  holding the bytes 1 to 4 of the file, not 0 to 3. Without the interruption it returns
  4 with the bytes 0 to 3 in the buffer. An interruption at the end of the file makes
  it return -1. In a run of one pass over a file of two chunks, no call failing but the
  first \<open>hdfsRead\<close> interrupted, the second chunk comes one byte short: the run prints no
  sum and \<open>main\<close> returns \<open>EINVAL\<close> after the message of a partial read of 8388607 bytes.
\<close>

theorem hdfsReadFully_interrupted_miscounts:
  "hdfsReadFully (calm_world Map.empty [10, 11, 12, 13, 14, 15, 16, 17] [Fail EINTR] [])
      (init (calm_world Map.empty [10, 11, 12, 13, 14, 15, 16, 17] [Fail EINTR] [])) 0 4 =
     (4, \<lparr>pos = 5, script = [], seeks = [], errno = EINTR,
          heap = store (\<lambda>a. 0) (- 1) [10, 11, 12, 13, 14],
          out = [Call HdfsRead, Call HdfsRead]\<rparr>) \<and>
   map (store (\<lambda>a. 0) (- 1) [10, 11, 12, 13, 14 :: byte]) [- 1, 0, 1, 2, 3] = [10, 11, 12, 13, 14] \<and>
   hdfsReadFully (calm_world Map.empty [10, 11, 12, 13, 14, 15, 16, 17] [] [])
      (init (calm_world Map.empty [10, 11, 12, 13, 14, 15, 16, 17] [] [])) 0 4 =
     (4, \<lparr>pos = 4, script = [], seeks = [], errno = 0,
          heap = store (\<lambda>a. 0) 0 [10, 11, 12, 13],
          out = [Call HdfsRead]\<rparr>) \<and>
   fst (hdfsReadFully (calm_world Map.empty [] [Fail EINTR] [])
      (init (calm_world Map.empty [] [Fail EINTR] [])) 0 4) = - 1 \<and>
   (\<exists>s'. main (calm_world (env_of ''1'' ''libhdfs'') (replicate 16777216 0) [Fail EINTR] []) =
       Some (EINVAL, s') \<and>
     stdout_of (out s') = [] \<and> Stderr (HdfsRead_partial_read 8388607) \<in> set (out s'))"
proof -
  let ?w = "calm_world (env_of ''1'' ''libhdfs'') (replicate 16777216 0) [Fail EINTR] []"
  let ?o = "\<lparr>path = ''/f'', passes = 1, ty = VECSUM_LIBHDFS, rpc_address = ''default''\<rparr>"
  have f: "\<forall>c. fault ?w c = None" by (simp add: calm_world_def)
  have o: "options_create ?w (init ?w) = (Some ?o, emit (Call Calloc_options) (init ?w))"
    by (simp add: options_create_calm atoi_1 parse_vecsum_type_values vecsum_type_of_def)
  have l: "length (file_bytes ?w) = 16777216" by (simp add: calm_world_def)
  have k: "read_script ?w = [Fail EINTR]" by (simp add: calm_world_def)
  have run: "\<exists>s'. main ?w = Some (EINVAL, s') \<and> stdout_of (out s') = [] \<and>
      Stderr (HdfsRead_partial_read 8388607) \<in> set (out s')"
    using streaming_interrupted_once [OF f o _ _ l k] by simp
  have "hdfsReadFully (calm_world Map.empty [10, 11, 12, 13, 14, 15, 16, 17] [Fail EINTR] [])
      (init (calm_world Map.empty [10, 11, 12, 13, 14, 15, 16, 17] [Fail EINTR] [])) 0 4 =
     (4, \<lparr>pos = 5, script = [], seeks = [], errno = EINTR,
          heap = store (\<lambda>a. 0) (- 1) [10, 11, 12, 13, 14],
          out = [Call HdfsRead, Call HdfsRead]\<rparr>) \<and>
   map (store (\<lambda>a. 0) (- 1) [10, 11, 12, 13, 14 :: byte]) [- 1, 0, 1, 2, 3] = [10, 11, 12, 13, 14] \<and>
   hdfsReadFully (calm_world Map.empty [10, 11, 12, 13, 14, 15, 16, 17] [] [])
      (init (calm_world Map.empty [10, 11, 12, 13, 14, 15, 16, 17] [] [])) 0 4 =
     (4, \<lparr>pos = 4, script = [], seeks = [], errno = 0,
          heap = store (\<lambda>a. 0) 0 [10, 11, 12, 13],
          out = [Call HdfsRead]\<rparr>) \<and>
   fst (hdfsReadFully (calm_world Map.empty [] [Fail EINTR] [])
      (init (calm_world Map.empty [] [Fail EINTR] [])) 0 4) = - 1"
    by (simp add: hdfsReadFully_def hdfsReadFully_loop.simps hdfsRead_def put_def transferred_def
        calm_world_def init_def emit_def store_def EINTR_def)
  with run show ?thesis by simp
qed

section \<open>Every run returns\<close>

text \<open>
  The result \<open>None\<close> stands for a run that reads outside a buffer or overflows the counter
  of the reducer. It does not occur: each strategy calls the reducer on a buffer that
  holds the doubles it is asked to add, so \<open>main\<close> returns a status in every world.
\<close>

lemma vecsum_defined:
  assumes "num_doubles \<le> int (length buf)" "num_doubles \<le> INT_MAX"
    and "num_doubles mod DOUBLES_PER_LOOP_ITER = 0"
  shows "\<exists>v. vecsum opts buf num_doubles = Some v"
proof (cases "0 \<le> num_doubles")
  case True
  then show ?thesis using vecsum_sum_list [OF True assms] by simp
next
  case False
  then have "vecsum_loop buf num_doubles 0 z = Some z" for z
    by (subst vecsum_loop.simps) simp
  then show ?thesis by (simp add: vecsum_def Let_def)
qed

lemma hadoopReadZero_buf:
  assumes "hadoopReadZero w s m = (Some rz, s1)" "ptr rz = Some buf"
  shows "rz_length rz = int (length buf)" "length buf \<le> nat m"
  using assms
  by (auto simp: hadoopReadZero_def zero_copy_def transferred_def Let_def emit_def
      split: list.splits transfer.splits if_splits)

lemma int_of_size_t_bounds:
  assumes "0 \<le> x"
  shows "int_of_size_t x \<le> x" "int_of_size_t x \<le> INT_MAX" "int_of_size_t x mod 16 = x mod 16"
proof -
  have e: "int_of_size_t x = (x + 2147483648) mod 4294967296 - 2147483648"
    by (simp add: int_of_size_t_def signed_of_int signed_take_bit_eq_take_bit_shift take_bit_eq_mod)
  have "(x + 2147483648) mod 4294967296 \<le> x + 2147483648"
    by (rule zmod_le_nonneg_dividend) (use assms in simp)
  then show "int_of_size_t x \<le> x" unfolding e by simp
  show "int_of_size_t x \<le> INT_MAX" unfolding e INT_MAX_def
    using pos_mod_bound [of 4294967296 "x + 2147483648"] by simp
  have "((x + 2147483648) mod 4294967296 - 2147483648) mod 16 =
      ((x + 2147483648) mod 4294967296 mod 16 - 2147483648 mod 16) mod 16"
    by (rule mod_diff_eq [symmetric])
  also have "(x + 2147483648) mod 4294967296 mod 16 = (x + 2147483648) mod 16"
    by (rule mod_mod_cancel) simp
  also have "(x + 2147483648) mod 16 = (x mod 16 + 2147483648 mod 16) mod 16"
    by (rule mod_add_eq [symmetric])
  finally show "int_of_size_t x mod 16 = x mod 16" unfolding e by simp
qed

lemma zcr_while_total: "\<exists>r s'. zcr_while w pass opts psum s = Some (r, s')"
proof (induction w pass opts psum s rule: zcr_while.induct)
  case (1 w pass opts psum s)
  obtain rb s1 where h: "hadoopReadZero w s ZCR_READ_CHUNK_SIZE = (rb, s1)" by force
  show ?case
  proof (cases rb)
    case None
    with h show ?thesis by (simp add: zcr_while.simps [of w pass opts psum s])
  next
    case (Some rz)
    note rz = Some
    show ?thesis
    proof (cases "ptr rz")
      case None
      with h rz show ?thesis by (simp add: zcr_while.simps [of w pass opts psum s])
    next
      case (Some buf)
      show ?thesis
      proof (cases "rz_length rz < ZCR_READ_CHUNK_SIZE")
        case True
        with h rz Some show ?thesis by (simp add: zcr_while.simps [of w pass opts psum s])
      next
        case False
        have l: "length buf = nat ZCR_READ_CHUNK_SIZE"
          using hadoopReadZero_buf [OF h [unfolded rz] Some] False by simp
        have "\<exists>v. vecsum opts (doubles_of (as_double w) buf)
            (ZCR_READ_CHUNK_SIZE div sizeof_double) = Some v"
          by (rule vecsum_defined)
             (simp_all add: length_doubles_of l ZCR_READ_CHUNK_SIZE_def sizeof_double_def
                INT_MAX_def DOUBLES_PER_LOOP_ITER_def)
        then obtain v where v: "vecsum opts (doubles_of (as_double w) buf)
            (ZCR_READ_CHUNK_SIZE div sizeof_double) = Some v" by blast
        from "1.IH" [OF h [symmetric] rz Some False v] h rz Some False v
        show ?thesis by (simp add: zcr_while.simps [of w pass opts psum s])
      qed
    qed
  qed
qed

lemma normal_while_total: "\<exists>r s'. normal_while w pass opts psum s = Some (r, s')"
proof (induction w pass opts psum s rule: normal_while.induct)
  case (1 w pass opts psum s)
  obtain res s1 where h: "hdfsReadFully w s 0 NORMAL_READ_CHUNK_SIZE = (res, s1)" by force
  have "\<exists>v. vecsum opts (doubles_of (as_double w) (buffer s1))
      (NORMAL_READ_CHUNK_SIZE div sizeof_double) = Some v"
    by (rule vecsum_defined)
       (simp_all add: length_doubles_of length_buffer NORMAL_READ_CHUNK_SIZE_def sizeof_double_def
          INT_MAX_def DOUBLES_PER_LOOP_ITER_def)
  then obtain v where v: "vecsum opts (doubles_of (as_double w) (buffer s1))
      (NORMAL_READ_CHUNK_SIZE div sizeof_double) = Some v" by blast
  consider "res = 0" | "res \<noteq> 0" "res < 0" | "res \<noteq> 0" "\<not> res < 0" "res < NORMAL_READ_CHUNK_SIZE"
    | "res \<noteq> 0" "\<not> res < 0" "\<not> res < NORMAL_READ_CHUNK_SIZE" by blast
  then show ?case
  proof cases
    case 1
    with h show ?thesis by (simp add: normal_while.simps [of w pass opts psum s])
  next
    case 2
    with h show ?thesis by (simp add: normal_while.simps [of w pass opts psum s])
  next
    case 3
    with h show ?thesis by (simp add: normal_while.simps [of w pass opts psum s])
  next
    case 4
    from "1.IH" [OF h [symmetric] 4 v] h 4 v
    show ?thesis by (simp add: normal_while.simps [of w pass opts psum s])
  qed
qed

lemma zcr_passes_total: "\<exists>r s'. zcr_passes w tdata opts pass s = Some (r, s')"
proof (induction w tdata opts pass s rule: zcr_passes.induct)
  case (1 w tdata opts pass s)
  show ?case
  proof (cases "pass < passes opts")
    case False
    then show ?thesis by (simp add: zcr_passes.simps [of w tdata opts pass s])
  next
    case True
    obtain r s1 where l: "vecsum_zcr_loop w pass tdata opts s = Some (r, s1)"
      using zcr_while_total [of w pass opts 0 s] by (auto simp: vecsum_zcr_loop_def)
    show ?thesis
    proof (cases "r \<noteq> 0")
      case True
      with \<open>pass < passes opts\<close> l show ?thesis
        by (simp add: zcr_passes.simps [of w tdata opts pass s])
    next
      case False
      from "1.IH" [OF \<open>pass < passes opts\<close> l refl False] \<open>pass < passes opts\<close> l False
      show ?thesis by (simp add: zcr_passes.simps [of w tdata opts pass s])
    qed
  qed
qed

lemma normal_passes_total: "\<exists>r s'. normal_passes w tdata opts pass s = Some (r, s')"
proof (induction w tdata opts pass s rule: normal_passes.induct)
  case (1 w tdata opts pass s)
  show ?case
  proof (cases "pass < passes opts")
    case False
    then show ?thesis by (simp add: normal_passes.simps [of w tdata opts pass s])
  next
    case True
    obtain r s1 where l: "vecsum_normal_loop w pass tdata opts s = Some (r, s1)"
      using normal_while_total [of w pass opts 0 s] by (auto simp: vecsum_normal_loop_def)
    show ?thesis
    proof (cases "r \<noteq> 0")
      case True
      with \<open>pass < passes opts\<close> l show ?thesis
        by (simp add: normal_passes.simps [of w tdata opts pass s])
    next
      case False
      from "1.IH" [OF \<open>pass < passes opts\<close> l refl False] \<open>pass < passes opts\<close> l False
      show ?thesis by (simp add: normal_passes.simps [of w tdata opts pass s])
    qed
  qed
qed

lemma local_passes_total:
  assumes "len = int (length (file_bytes w))" "len mod VECSUM_CHUNK_SIZE = 0"
  shows "\<exists>s'. local_passes w opts len pass s = Some s'"
  using assms
proof (induction w opts len pass s rule: local_passes.induct)
  case (1 w opts len pass s)
  show ?case
  proof (cases "pass < passes opts")
    case False
    then show ?thesis by (simp add: local_passes.simps [of w opts len pass s])
  next
    case True
    have "8388608 dvd len"
      using "1.prems"(2) by (simp add: VECSUM_CHUNK_SIZE_def mod_eq_0_iff_dvd)
    then obtain k where k: "len = 8388608 * k" by (rule dvdE)
    have d: "len div 8 = 16 * (65536 * k)" unfolding k by simp
    have x: "0 \<le> len div 8" "(len div 8) mod 16 = 0"
      using "1.prems"(1) by (simp add: pos_imp_zdiv_nonneg_iff) (simp add: d)
    have "\<exists>v. vecsum opts (doubles_of (as_double w) (file_bytes w))
        (int_of_size_t (len div sizeof_double)) = Some v"
    proof (rule vecsum_defined)
      show "int_of_size_t (len div sizeof_double) \<le> int (length (doubles_of (as_double w) (file_bytes w)))"
        using int_of_size_t_bounds(1) [OF x(1)] "1.prems"(1)
        by (simp add: length_doubles_of sizeof_double_def zdiv_int)
      show "int_of_size_t (len div sizeof_double) \<le> INT_MAX"
        using int_of_size_t_bounds(2) [OF x(1)] by (simp add: sizeof_double_def)
      show "int_of_size_t (len div sizeof_double) mod DOUBLES_PER_LOOP_ITER = 0"
        using int_of_size_t_bounds(3) [OF x(1)] x(2)
        by (simp add: sizeof_double_def DOUBLES_PER_LOOP_ITER_def)
    qed
    then obtain v where v: "vecsum opts (doubles_of (as_double w) (file_bytes w))
        (int_of_size_t (len div sizeof_double)) = Some v" by blast
    from "1.IH" [OF True v "1.prems"] True v
    show ?thesis by (simp add: local_passes.simps [of w opts len pass s])
  qed
qed

lemma vecsum_zcr_total: "\<exists>r s'. vecsum_zcr w tdata opts s = Some (r, s')"
  using zcr_passes_total [of w tdata opts 0]
  by (simp add: vecsum_zcr_def split: prod.split option.split)

lemma vecsum_libhdfs_total: "\<exists>r s'. vecsum_libhdfs w tdata opts s = Some (r, s')"
  using normal_passes_total [of w tdata opts 0]
  by (simp add: vecsum_libhdfs_def split: prod.split option.split)

lemma vecsum_local_total: "\<exists>r s'. vecsum_local w opts s = Some (r, s')"
proof -
  have "local_passes w opts (int (length (file_bytes w))) 0 s3 \<noteq> None"
    if "int (length (file_bytes w)) mod VECSUM_CHUNK_SIZE = 0" for s3
    using local_passes_total [OF refl that, of opts 0 s3] by auto
  then show ?thesis
    by (auto simp: vecsum_local_def Let_def split: prod.split option.split)
       (metis option.distinct(1))
qed

lemma main_done_total:
  assumes "watch \<and> ret = 0 \<longrightarrow> (\<exists>op. opts = Some op \<and> (ty op \<noteq> VECSUM_LOCAL \<longrightarrow> tdata \<noteq> None))"
  shows "\<exists>r s'. main_done w opts tdata watch ret s = Some (r, s')"
  using assms
  by (auto simp: main_done_def vecsum_length_def split: prod.split option.split)

lemma main_run_total:
  assumes "ty opts \<noteq> VECSUM_LOCAL \<longrightarrow> tdata \<noteq> None"
  shows "\<exists>r s'. main_run w opts tdata s = Some (r, s')"
proof -
  obtain b s1 where c: "stopwatch_create w s = (b, s1)" by force
  show ?thesis
  proof (cases b)
    case False
    with c show ?thesis using main_done_total [of False 1 "Some opts" tdata w s1]
      by (simp add: main_run_def)
  next
    case True
    have "\<exists>ret s2. (case ty opts of
            VECSUM_LIBHDFS \<Rightarrow> (case tdata of None \<Rightarrow> None | Some td \<Rightarrow> vecsum_libhdfs w td opts s1)
          | VECSUM_ZCR \<Rightarrow> (case tdata of None \<Rightarrow> None | Some td \<Rightarrow> vecsum_zcr w td opts s1)
          | VECSUM_LOCAL \<Rightarrow> vecsum_local w opts s1) = Some (ret, s2)"
      using assms vecsum_libhdfs_total vecsum_zcr_total vecsum_local_total [of w opts s1]
      by (cases "ty opts"; cases tdata) simp_all
    then obtain ret s2 where r: "(case ty opts of
            VECSUM_LIBHDFS \<Rightarrow> (case tdata of None \<Rightarrow> None | Some td \<Rightarrow> vecsum_libhdfs w td opts s1)
          | VECSUM_ZCR \<Rightarrow> (case tdata of None \<Rightarrow> None | Some td \<Rightarrow> vecsum_zcr w td opts s1)
          | VECSUM_LOCAL \<Rightarrow> vecsum_local w opts s1) = Some (ret, s2)" by blast
    have d: "\<exists>r s'. main_done w (Some opts) tdata True ret' s3 = Some (r, s')" for ret' s3
      by (rule main_done_total) (use assms in simp)
    show ?thesis using c True r d by (simp add: main_run_def)
  qed
qed

lemma main_total: "\<exists>r s'. main w = Some (r, s')"
proof -
  obtain ob s4 where oc: "options_create w (init w) = (ob, s4)" by force
  show ?thesis
  proof (cases ob)
    case None
    with oc show ?thesis using main_done_total [of False 1 None None w s4]
      by (simp add: main_options)
  next
    case (Some opts)
    show ?thesis
    proof (cases "ty opts \<noteq> VECSUM_LOCAL")
      case False
      with oc Some show ?thesis using main_run_total [of opts None w s4]
        by (simp add: main_options)
    next
      case True
      obtain td s5 where tc: "test_data_create w opts s4 = (td, s5)" by force
      show ?thesis
      proof (cases td)
        case None
        with oc Some True tc show ?thesis
          using main_done_total [of False 1 "Some opts" None w s5] by (simp add: main_options)
      next
        case (Some tdata)
        with oc \<open>ob = Some opts\<close> True tc show ?thesis
          using main_run_total [of opts "Some tdata" w s5] by (simp add: main_options)
      qed
    qed
  qed
qed

end
